theory Spec2Isabelle
  imports Main
begin

section \<open>Paths (pathlib, POSIX flavour)\<close>

text \<open>
  A path is the list of its components below the anchor (drive and root); all paths of one
  run share the anchor, so it is left out. The empty list is the anchor itself
  (\<^verbatim>\<open>Path('.')\<close> or \<^verbatim>\<open>Path('/')\<close>), whose \<^verbatim>\<open>name\<close> is the empty string.
  The definitions follow \<^verbatim>\<open>pathlib.PurePath\<close> as shipped with CPython 3.11.
\<close>

type_synonym path = "string list"

datatype error = ValueError | FileNotFoundError | NotADirectoryError | PermissionError
  | UnicodeEncodeError

text \<open>\<^verbatim>\<open>PurePath.name\<close>: the final component, or the empty string when there is none.\<close>

definition name :: "path \<Rightarrow> string" where
  "name p = (if p = [] then [] else last p)"

text \<open>\<^verbatim>\<open>str.rfind\<close> for a single character: the highest index of \<open>c\<close>, or \<open>-1\<close>.\<close>

definition rfind :: "string \<Rightarrow> char \<Rightarrow> int" where
  "rfind s c =
     (if c \<in> set s then int (length s) - 1 - int (length (takeWhile (\<lambda>x. x \<noteq> c) (rev s)))
      else - 1)"

text \<open>\<^verbatim>\<open>PurePath.suffix\<close>: from the last dot of the name on, unless that dot is the first or
  the last character of the name.\<close>

definition suffix :: "path \<Rightarrow> string" where
  "suffix p =
     (let nm = name p; i = rfind nm (CHR ''.'')
      in if 0 < i \<and> i < int (length nm) - 1 then drop (nat i) nm else [])"

text \<open>\<^verbatim>\<open>PurePath.with_suffix\<close>, with its three \<^verbatim>\<open>ValueError\<close> guards in source order.\<close>

definition with_suffix :: "path \<Rightarrow> string \<Rightarrow> error + path" where
  "with_suffix p sfx =
     (if CHR ''/'' \<in> set sfx then Inl ValueError
      else if (sfx \<noteq> [] \<and> hd sfx \<noteq> CHR ''.'') \<or> sfx = ''.'' then Inl ValueError
      else if name p = [] then Inl ValueError
      else let old_suffix = suffix p;
               nm = (if old_suffix = [] then name p @ sfx
                     else take (length (name p) - length old_suffix) (name p) @ sfx)
           in Inr (butlast p @ [nm]))"

section \<open>Consistency checks\<close>

definition is_dangling_metafile :: "path \<Rightarrow> path set \<Rightarrow> error + bool" where
  "is_dangling_metafile metafile assets =
     (case with_suffix metafile [] of
        Inl e \<Rightarrow> Inl e
      | Inr q \<Rightarrow> Inr (q \<notin> assets))"

definition is_missing_metafile :: "path \<Rightarrow> path set \<Rightarrow> error + bool" where
  "is_missing_metafile asset metafiles =
     (case with_suffix asset (suffix asset @ ''.meta'') of
        Inl e \<Rightarrow> Inl e
      | Inr q \<Rightarrow> Inr (q \<notin> metafiles))"

text \<open>The two path transformations as the specification words them: \<open>.meta\<close> appended to
  the full name, and the trailing \<open>.meta\<close> of the name removed.\<close>

definition append_meta :: "path \<Rightarrow> path" where
  "append_meta p = butlast p @ [name p @ ''.meta'']"

definition strip_meta :: "path \<Rightarrow> path" where
  "strip_meta p = butlast p @ [take (length (name p) - length ''.meta'') (name p)]"

text \<open>The representation invariant of a pathlib path: parsing splits at the separator and
  drops empty components, so no component is empty or contains \<open>/\<close>.\<close>

definition wf_path :: "path \<Rightarrow> bool" where
  "wf_path p = (\<forall>c \<in> set p. c \<noteq> [] \<and> CHR ''/'' \<notin> set c)"

section \<open>The directory tree\<close>

text \<open>
  The file system below the anchor is a finite tree. An entry is a regular file, a
  directory, or something else: a broken symbolic link, a FIFO, a socket or a device, for
  which both \<^verbatim>\<open>Path.is_file()\<close> and \<^verbatim>\<open>Path.is_dir()\<close> answer false. A directory
  \<open>Dir ok cs\<close> may be searched by the process, and \<open>ok\<close> tells whether it may be listed
  as well; a directory \<open>Unsearchable cs\<close> may be listed but not searched, so that
  \<^verbatim>\<open>stat\<close> on any name in it fails with \<^verbatim>\<open>EACCES\<close>. A symbolic link to a file or
  directory is followed by every call used here and so is the node it points to; link
  cycles, and trees deeper than the recursion limit of the interpreter, are outside the
  model.
\<close>

datatype node = File | Special | Dir bool "(string \<times> node) list"
  | Unsearchable "(string \<times> node) list"

text \<open>The entry at a path, permissions aside.\<close>

fun lookup :: "node \<Rightarrow> path \<Rightarrow> node option" where
  "lookup n [] = Some n"
| "lookup (Dir ok cs) (x # xs) =
     (case map_of cs x of None \<Rightarrow> None | Some c \<Rightarrow> lookup c xs)"
| "lookup (Unsearchable cs) (x # xs) =
     (case map_of cs x of None \<Rightarrow> None | Some c \<Rightarrow> lookup c xs)"
| "lookup File (x # xs) = None"
| "lookup Special (x # xs) = None"

text \<open>\<^verbatim>\<open>os.stat\<close>: the entry at a path, or the \<^verbatim>\<open>OSError\<close> of the first component
  that cannot be resolved.\<close>

fun stat :: "node \<Rightarrow> path \<Rightarrow> error + node" where
  "stat n [] = Inr n"
| "stat (Dir ok cs) (x # xs) =
     (case map_of cs x of None \<Rightarrow> Inl FileNotFoundError | Some c \<Rightarrow> stat c xs)"
| "stat (Unsearchable cs) (x # xs) = Inl PermissionError"
| "stat File (x # xs) = Inl NotADirectoryError"
| "stat Special (x # xs) = Inl NotADirectoryError"

text \<open>\<^verbatim>\<open>Path.is_dir()\<close> and \<^verbatim>\<open>Path.is_file()\<close> answer false when \<^verbatim>\<open>stat\<close> fails
  because the entry is missing, and raise every other \<^verbatim>\<open>OSError\<close> again.\<close>

definition is_dir :: "node \<Rightarrow> path \<Rightarrow> error + bool" where
  "is_dir fs p =
     (case stat fs p of
        Inl e \<Rightarrow> if e = FileNotFoundError \<or> e = NotADirectoryError then Inr False else Inl e
      | Inr (Dir ok cs) \<Rightarrow> Inr True
      | Inr (Unsearchable cs) \<Rightarrow> Inr True
      | Inr _ \<Rightarrow> Inr False)"

definition is_file :: "node \<Rightarrow> path \<Rightarrow> error + bool" where
  "is_file fs p =
     (case stat fs p of
        Inl e \<Rightarrow> if e = FileNotFoundError \<or> e = NotADirectoryError then Inr False else Inl e
      | Inr File \<Rightarrow> Inr True
      | Inr _ \<Rightarrow> Inr False)"

text \<open>\<^verbatim>\<open>Path.iterdir()\<close>, consumed whole by the list comprehension: the children of a
  directory as paths, or the \<^verbatim>\<open>OSError\<close> that listing raises.\<close>

definition iterdir :: "node \<Rightarrow> path \<Rightarrow> error + path list" where
  "iterdir fs p =
     (case stat fs p of
        Inl e \<Rightarrow> Inl e
      | Inr (Dir ok cs) \<Rightarrow>
          if ok then Inr (map (\<lambda>c. p @ [fst c]) cs) else Inl PermissionError
      | Inr (Unsearchable cs) \<Rightarrow> Inr (map (\<lambda>c. p @ [fst c]) cs)
      | Inr _ \<Rightarrow> Inl NotADirectoryError)"


text \<open>A tree with the entry at a path replaced by another node.\<close>

fun update :: "node \<Rightarrow> path \<Rightarrow> node \<Rightarrow> node" where
  "update n [] m = m"
| "update (Dir ok cs) (x # xs) m =
     Dir ok (map (\<lambda>c. if fst c = x then (fst c, update (snd c) xs m) else c) cs)"
| "update (Unsearchable cs) (x # xs) m =
     Unsearchable (map (\<lambda>c. if fst c = x then (fst c, update (snd c) xs m) else c) cs)"
| "update File (x # xs) m = File"
| "update Special (x # xs) m = Special"

definition is_directory :: "node \<Rightarrow> bool" where
  "is_directory n = (case n of Dir ok cs \<Rightarrow> True | Unsearchable cs \<Rightarrow> True | _ \<Rightarrow> False)"

text \<open>The height of a node and of the node at a path: the termination measure of the
  traversal.\<close>

fun height :: "node \<Rightarrow> nat" where
  "height File = 0"
| "height Special = 0"
| "height (Dir ok cs) = Suc (foldr max (map (\<lambda>c. height (snd c)) cs) 0)"
| "height (Unsearchable cs) = Suc (foldr max (map (\<lambda>c. height (snd c)) cs) 0)"

definition depth_below :: "node \<Rightarrow> path \<Rightarrow> nat" where
  "depth_below fs p = (case lookup fs p of None \<Rightarrow> 0 | Some n \<Rightarrow> height n)"

lemma lookup_append:
  "lookup fs (p @ q) = (case lookup fs p of None \<Rightarrow> None | Some m \<Rightarrow> lookup m q)"
  by (induction fs p rule: lookup.induct) (auto split: option.splits)

lemma stat_lookup: "stat fs p = Inr n \<Longrightarrow> lookup fs p = Some n"
  by (induction fs p rule: stat.induct) (auto split: option.splits)

lemma foldr_max_ge: "x \<in> set xs \<Longrightarrow> x \<le> foldr max xs (a::nat)"
  by (induction xs) auto

lemma foldr_max_less:
  "(\<forall>x \<in> set xs. x < k) \<Longrightarrow> a < k \<Longrightarrow> foldr max xs (a::nat) < k"
  by (induction xs) auto

lemma child_height:
  assumes "(n, c) \<in> set cs"
  shows "height c < height (Dir ok cs)" and "height c < height (Unsearchable cs)"
proof -
  from assms have "height c \<in> set (map (\<lambda>c. height (snd c)) cs)" by force
  from foldr_max_ge[OF this]
  show "height c < height (Dir ok cs)" and "height c < height (Unsearchable cs)"
    by (simp_all add: less_Suc_eq_le)
qed

text \<open>A successful listing is that of a directory, whose entries it names.\<close>

lemma iterdir_listing:
  assumes "iterdir fs p = Inr cs"
  obtains ds where "lookup fs p = Some (Dir True ds) \<or> lookup fs p = Some (Unsearchable ds)"
    and "cs = map (\<lambda>c. p @ [fst c]) ds"
  using assms
  by (auto simp: iterdir_def dest: stat_lookup split: sum.splits node.splits if_splits)

lemma iterdir_depth:
  assumes "iterdir fs p = Inr cs" and "pc \<in> set cs"
  shows "depth_below fs pc < depth_below fs p"
proof -
  from assms(1) obtain ds
    where l: "lookup fs p = Some (Dir True ds) \<or> lookup fs p = Some (Unsearchable ds)"
      and cs: "cs = map (\<lambda>c. p @ [fst c]) ds"
    by (rule iterdir_listing)
  from assms(2) cs obtain n where pc: "pc = p @ [n]" by auto
  show ?thesis
  proof (cases "map_of ds n")
    case None
    with l show ?thesis by (auto simp: depth_below_def pc lookup_append)
  next
    case (Some c)
    then have "(n, c) \<in> set ds" by (rule map_of_SomeD)
    from child_height[OF this] Some l show ?thesis
      by (auto simp: depth_below_def pc lookup_append)
  qed
qed

section \<open>Tree collector\<close>

text \<open>
  A predicate of the traversal is a closure over the file system: it answers, or raises
  the error of the \<^verbatim>\<open>is_dir()\<close> or \<^verbatim>\<open>is_file()\<close> call it makes. \<open>filter_not ex xs\<close>
  is the comprehension \<^verbatim>\<open>[pc for pc in xs if not ex(pc)]\<close>.
\<close>

fun filter_not :: "(path \<Rightarrow> error + bool) \<Rightarrow> path list \<Rightarrow> error + path list" where
  "filter_not ex [] = Inr []"
| "filter_not ex (pc # pcs) =
     (case ex pc of
        Inl e \<Rightarrow> Inl e
      | Inr excluded \<Rightarrow>
          (case filter_not ex pcs of
             Inl e \<Rightarrow> Inl e
           | Inr kept \<Rightarrow> Inr (if excluded then kept else pc # kept)))"

lemma filter_not_Inr:
  "filter_not ex xs = Inr ys \<longleftrightarrow>
     (\<forall>x \<in> set xs. \<exists>b. ex x = Inr b) \<and> ys = filter (\<lambda>x. ex x = Inr False) xs"
proof (induction xs arbitrary: ys)
  case Nil
  then show ?case by auto
next
  case (Cons x xs)
  show ?case
  proof (cases "ex x")
    case (Inl e)
    then show ?thesis by auto
  next
    case (Inr b)
    show ?thesis
    proof (cases "filter_not ex xs")
      case (Inl e)
      with Cons.IH Inr show ?thesis by (auto simp: Inl)
    next
      case r: (Inr kept)
      with Cons.IH[of kept] have k: "(\<forall>x \<in> set xs. \<exists>b. ex x = Inr b)"
        "kept = filter (\<lambda>x. ex x = Inr False) xs" by auto
      show ?thesis using Inr r k by (cases b) auto
    qed
  qed
qed

text \<open>
  \<^verbatim>\<open>_find_elems_rec\<close> and its \<^verbatim>\<open>for\<close> loop over the kept children. The loop is the
  function \<open>descend\<close>; an exception leaves both at once.
\<close>

function find_elems_rec ::
    "node \<Rightarrow> (path \<Rightarrow> error + bool) \<Rightarrow> (path \<Rightarrow> error + bool) \<Rightarrow> path \<Rightarrow> path set
      \<Rightarrow> error + path set"
  and descend ::
    "node \<Rightarrow> (path \<Rightarrow> error + bool) \<Rightarrow> (path \<Rightarrow> error + bool) \<Rightarrow> path list \<Rightarrow> path set
      \<Rightarrow> error + path set"
where
  "find_elems_rec fs is_excluded_transverse is_excluded_result p acc =
     (case iterdir fs p of
        Inl e \<Rightarrow> Inl e
      | Inr children \<Rightarrow>
          (case filter_not is_excluded_transverse children of
             Inl e \<Rightarrow> Inl e
           | Inr paths \<Rightarrow>
               (case filter_not is_excluded_result paths of
                  Inl e \<Rightarrow> Inl e
                | Inr results \<Rightarrow>
                    descend fs is_excluded_transverse is_excluded_result paths
                      (acc \<union> set results))))"
| "descend fs is_excluded_transverse is_excluded_result [] acc = Inr acc"
| "descend fs is_excluded_transverse is_excluded_result (p # ps) acc =
     (case is_dir fs p of
        Inl e \<Rightarrow> Inl e
      | Inr True \<Rightarrow>
          (case find_elems_rec fs is_excluded_transverse is_excluded_result p acc of
             Inl e \<Rightarrow> Inl e
           | Inr acc' \<Rightarrow> descend fs is_excluded_transverse is_excluded_result ps acc')
      | Inr False \<Rightarrow> descend fs is_excluded_transverse is_excluded_result ps acc)"
  by pat_completeness auto

termination
proof (relation "inv_image (less_than <*lex*> less_than)
     (\<lambda>x. case x of
        Inl (fs, t, r, p, acc) \<Rightarrow> (depth_below fs p, 0)
      | Inr (fs, t, r, ps, acc) \<Rightarrow>
          (foldr max (map (depth_below fs) ps) 0, Suc (length ps)))",
    goal_cases)
  case 1
  show ?case by (intro wf_inv_image wf_lex_prod wf_less_than)
next
  case (2 fs t r p acc cs paths results)
  from 2(2) have "set paths \<subseteq> set cs" by (auto simp: filter_not_Inr)
  then have "\<forall>x \<in> set (map (depth_below fs) paths). x < depth_below fs p"
    using iterdir_depth[OF 2(1)] by auto
  moreover have "0 < depth_below fs p"
    using 2(1) by (rule iterdir_listing) (auto simp: depth_below_def)
  ultimately have "foldr max (map (depth_below fs) paths) 0 < depth_below fs p"
    by (rule foldr_max_less)
  then show ?case by simp
next
  case 3
  then show ?case by (auto simp: max_def)
next
  case 4
  then show ?case by (auto simp: max_def)
next
  case 5
  then show ?case by (auto simp: max_def)
qed

definition find_elems ::
    "node \<Rightarrow> path \<Rightarrow> (path \<Rightarrow> error + bool) \<Rightarrow> (path \<Rightarrow> error + bool) option
      \<Rightarrow> error + path set" where
  "find_elems fs root is_excluded_transverse is_excluded_result =
     (let is_excluded_result' =
            (case is_excluded_result of None \<Rightarrow> (\<lambda>_. Inr False) | Some f \<Rightarrow> f)
      in find_elems_rec fs is_excluded_transverse is_excluded_result' root {})"

text \<open>The closures of \<^verbatim>\<open>gather_metafile_paths\<close>.\<close>

definition metafile_is_excluded :: "node \<Rightarrow> string set \<Rightarrow> path \<Rightarrow> error + bool" where
  "metafile_is_excluded fs excluded_dirs p =
     (case is_file fs p of
        Inl e \<Rightarrow> Inl e
      | Inr file \<Rightarrow> Inr (if file then suffix p \<noteq> ''.meta'' else name p \<in> excluded_dirs))"

definition is_not_metafile :: "node \<Rightarrow> path \<Rightarrow> error + bool" where
  "is_not_metafile fs p = is_dir fs p"

definition gather_metafile_paths :: "node \<Rightarrow> path \<Rightarrow> string set \<Rightarrow> error + path set" where
  "gather_metafile_paths fs root excluded_dirs =
     find_elems fs root (metafile_is_excluded fs excluded_dirs) (Some (is_not_metafile fs))"

text \<open>The closure of \<^verbatim>\<open>gather_asset_paths\<close>.\<close>

definition asset_is_excluded ::
    "node \<Rightarrow> string set \<Rightarrow> string set \<Rightarrow> path \<Rightarrow> error + bool" where
  "asset_is_excluded fs excluded_files excluded_directories p =
     (case is_dir fs p of
        Inl e \<Rightarrow> Inl e
      | Inr dir \<Rightarrow>
          (let filter' = (if dir then excluded_directories else excluded_files)
           in Inr (name p \<in> filter' \<or> suffix p = ''.meta'')))"

definition gather_asset_paths ::
    "node \<Rightarrow> path \<Rightarrow> string set \<Rightarrow> string set \<Rightarrow> error + path set" where
  "gather_asset_paths fs root excluded_files excluded_directories =
     find_elems fs root (asset_is_excluded fs excluded_files excluded_directories) None"

text \<open>
  The entries a traversal looks at: \<open>visited fs ex p ns\<close> says that the names \<open>ns\<close> lead
  from the directory \<open>p\<close> down to an existing entry, that the predicate \<open>ex\<close> keeps every
  entry on the way (the last one too), and that every entry but the last is a directory.
\<close>

fun visited :: "node \<Rightarrow> (path \<Rightarrow> error + bool) \<Rightarrow> path \<Rightarrow> string list \<Rightarrow> bool" where
  "visited fs ex p [] = False"
| "visited fs ex p [n] = (lookup fs (p @ [n]) \<noteq> None \<and> ex (p @ [n]) = Inr False)"
| "visited fs ex p (n # ns) =
     (lookup fs (p @ [n]) \<noteq> None \<and> ex (p @ [n]) = Inr False \<and> is_dir fs (p @ [n]) = Inr True
      \<and> visited fs ex (p @ [n]) ns)"

text \<open>The paths a traversal from \<open>p\<close> is to collect: the visited entries that the result
  predicate keeps.\<close>

definition below ::
    "node \<Rightarrow> (path \<Rightarrow> error + bool) \<Rightarrow> (path \<Rightarrow> error + bool) \<Rightarrow> path \<Rightarrow> path set" where
  "below fs t r p = {q. \<exists>ns. q = p @ ns \<and> visited fs t p ns \<and> r q = Inr False}"

text \<open>The directories a traversal from \<open>root\<close> lists: the root, and every directory
  reached through directories that the predicate keeps.\<close>

definition reaches :: "node \<Rightarrow> (path \<Rightarrow> error + bool) \<Rightarrow> path \<Rightarrow> path \<Rightarrow> bool" where
  "reaches fs ex root d =
     (d = root \<or> (\<exists>ns. d = root @ ns \<and> visited fs ex root ns \<and> is_dir fs d = Inr True))"

text \<open>The proper ancestors, below the root, of the entry that the names \<open>ns\<close> lead to.\<close>

definition ancestors :: "path \<Rightarrow> string list \<Rightarrow> path list" where
  "ancestors root ns = map (\<lambda>k. root @ take k ns) [1 ..< length ns]"

text \<open>What a listed directory needs for the traversal to go on: it can be listed, both
  predicates answer on the entries they are asked about, and so does \<^verbatim>\<open>is_dir()\<close>.\<close>

definition listing_ok ::
    "node \<Rightarrow> (path \<Rightarrow> error + bool) \<Rightarrow> (path \<Rightarrow> error + bool) \<Rightarrow> path \<Rightarrow> bool" where
  "listing_ok fs t r d =
     (\<exists>cs. iterdir fs d = Inr cs \<and>
        (\<forall>c \<in> set cs. (\<exists>b. t c = Inr b) \<and>
           (t c = Inr False \<longrightarrow> (\<exists>b. r c = Inr b) \<and> (\<exists>b. is_dir fs c = Inr b))))"

text \<open>A node without what lies beneath it: its kind, its permissions and the names of its
  entries.\<close>

definition view :: "node \<Rightarrow> node" where
  "view n = (case n of
       Dir ok cs \<Rightarrow> Dir ok (map (\<lambda>c. (fst c, File)) cs)
     | Unsearchable cs \<Rightarrow> Unsearchable (map (\<lambda>c. (fst c, File)) cs)
     | File \<Rightarrow> File
     | Special \<Rightarrow> Special)"

section \<open>Event reporter\<close>

record TeamCityMsg =
  text' :: string
  properties :: "(string \<times> string) list"

text \<open>\<^verbatim>\<open>str.join\<close>.\<close>

fun join :: "string \<Rightarrow> string list \<Rightarrow> string" where
  "join sep [] = []"
| "join sep [x] = x"
| "join sep (x # xs) = x @ sep @ join sep xs"

text \<open>\<^verbatim>\<open>TeamCityMsg._msg\<close>; the dictionary is the list of its items in insertion order.\<close>

definition msg :: "TeamCityMsg \<Rightarrow> string" where
  "msg self =
     (let props = map (\<lambda>(key, value). key @ ''='' @ [CHR 0x27] @ value @ [CHR 0x27])
                      (properties self);
          content = join '' '' ([text' self] @ props)
      in ''##teamcity['' @ content @ '']'')"

text \<open>The part of a line after the event name: one group per property.\<close>

definition render :: "(string \<times> string) list \<Rightarrow> string" where
  "render ps =
     concat (map (\<lambda>kv. CHR '' '' # fst kv @ CHR ''='' # CHR 0x27 # snd kv @ [CHR 0x27]) ps)"

text \<open>An event none of whose parts contains the character that ends it on the line: no
  space in the event name, no \<open>=\<close> in a key, no single quote in a value.\<close>

definition plain_event :: "TeamCityMsg \<Rightarrow> bool" where
  "plain_event m =
     (CHR '' '' \<notin> set (text' m) \<and>
      (\<forall>kv \<in> set (properties m). CHR ''='' \<notin> set (fst kv) \<and> CHR 0x27 \<notin> set (snd kv)))"

text \<open>
  Standard output is the list of the lines printed so far. \<^verbatim>\<open>print\<close> encodes a line
  before it writes any of it, and raises \<^verbatim>\<open>UnicodeEncodeError\<close> when the encoding of the
  stream has no code for one of its characters; \<open>encodable\<close> tells which lines the stream
  of a run takes.
\<close>

definition publish :: "(string \<Rightarrow> bool) \<Rightarrow> TeamCityMsg \<Rightarrow> string list \<Rightarrow> error + string list" where
  "publish encodable self out =
     (if encodable (msg self) then Inr (out @ [msg self]) else Inl UnicodeEncodeError)"

section \<open>Scoped reporting contexts\<close>




record Test =
  test_name :: string
  start_time :: int

text \<open>The generated \<^verbatim>\<open>__init__\<close> called with the name only, as both runners do. The default
  of \<^verbatim>\<open>_start_time\<close> is the value \<^verbatim>\<open>datetime.now()\<close> had when the class statement
  ran, \<open>class_time\<close>.\<close>

definition Test_init :: "int \<Rightarrow> string \<Rightarrow> Test" where
  "Test_init class_time nm = \<lparr>test_name = nm, start_time = class_time\<rparr>"

definition Test_enter ::
    "(string \<Rightarrow> bool) \<Rightarrow> Test \<Rightarrow> int \<Rightarrow> string list \<Rightarrow> error + Test \<times> string list" where
  "Test_enter encodable self now out =
     (let props = [(''name'', test_name self), (''captureStandardOutput'', ''false'')]
      in case publish encodable \<lparr>text' = ''testStarted'', properties = props\<rparr> out of
           Inl e \<Rightarrow> Inl e
         | Inr out' \<Rightarrow> Inr (self, out'))"

text \<open>The timedelta \<^verbatim>\<open>datetime.now() - self._start_time\<close>, in microseconds.\<close>

definition Test_elapsed :: "Test \<Rightarrow> int \<Rightarrow> int" where
  "Test_elapsed self now = now - start_time self"



definition Test_ignore ::
    "(string \<Rightarrow> bool) \<Rightarrow> Test \<Rightarrow> string \<Rightarrow> string list \<Rightarrow> error + string list" where
  "Test_ignore encodable self comment out =
     (let props = [(''name'', test_name self), (''message'', comment)]
      in publish encodable \<lparr>text' = ''testIgnored'', properties = props\<rparr> out)"

section \<open>Verification runners and entry point\<close>

text \<open>
  What the interpreter and the platform contribute to a run: the instant of the class
  statement of \<^verbatim>\<open>Test\<close>, the instant of the \<open>k\<close>-th scope operation, the rendering of
  durations and of paths, the order in which a set of paths is iterated, and the lines
  that standard output can encode.
\<close>

record runtime =
  class_time :: int
  clock :: "nat \<Rightarrow> int"
  str_millis :: "int \<Rightarrow> string"
  str_path :: "path \<Rightarrow> string"
  iteration_order :: "path set \<Rightarrow> path list"
  encodable :: "string \<Rightarrow> bool"

text \<open>The state of a run: the lines printed and the number of scope operations begun. A
  step of a run gives the exception it raised, if any, and the state it left.\<close>

record world =
  out :: "string list"
  ticks :: nat












section \<open>Facts about names and suffixes\<close>

lemma rfind_last_occurrence:
  assumes "c \<notin> set ys"
  shows "rfind (xs @ c # ys) c = int (length xs)"
proof -
  have "\<And>x. x \<in> set (rev ys) \<Longrightarrow> x \<noteq> c"
    using assms by auto
  then have "takeWhile (\<lambda>x. x \<noteq> c) (rev ys @ c # rev xs) = rev ys"
    by (simp del: set_rev)
  then show ?thesis by (simp add: rfind_def)
qed

lemma rfind_points: "0 \<le> rfind s c \<Longrightarrow> s ! nat (rfind s c) = c"
proof -
  assume a: "0 \<le> rfind s c"
  then have mem: "c \<in> set s" by (auto simp: rfind_def split: if_splits)
  then obtain xs ys where s: "s = xs @ c # ys" and n: "c \<notin> set ys"
    by (meson split_list_last)
  show ?thesis by (simp add: s rfind_last_occurrence[OF n])
qed

lemma suffix_is_tail:
  "take (length (name p) - length (suffix p)) (name p) @ suffix p = name p"
  by (auto simp: suffix_def Let_def)

lemma suffix_subset: "set (suffix p) \<subseteq> set (name p)"
  by (auto simp: suffix_def Let_def dest: in_set_dropD)

lemma hd_suffix: "suffix p \<noteq> [] \<Longrightarrow> hd (suffix p) = CHR ''.''"
  by (auto simp: suffix_def Let_def hd_drop_conv_nth rfind_points split: if_splits)

lemma suffix_meta_appended:
  assumes "nm \<noteq> []"
  shows "suffix (bs @ [nm @ ''.meta'']) = ''.meta''"
proof -
  have "rfind (nm @ CHR ''.'' # ''meta'') (CHR ''.'') = int (length nm)"
    by (rule rfind_last_occurrence) simp
  then show ?thesis using assms by (simp add: suffix_def name_def Let_def)
qed

lemma with_suffix_append:
  assumes "CHR ''/'' \<notin> set (name p)" and "name p \<noteq> []"
  shows "with_suffix p (suffix p @ ''.meta'') = Inr (append_meta p)"
proof -
  have sep: "CHR ''/'' \<notin> set (suffix p @ ''.meta'')"
    using assms(1) suffix_subset[of p] by auto
  have dot: "hd (suffix p @ ''.meta'') = CHR ''.''"
    by (cases "suffix p = []") (simp_all add: hd_suffix)
  have one: "suffix p @ ''.meta'' \<noteq> ''.''" by simp
  have nm: "(if suffix p = [] then name p @ suffix p @ ''.meta''
             else take (length (name p) - length (suffix p)) (name p) @ suffix p @ ''.meta'')
            = name p @ ''.meta''"
    using suffix_is_tail[of p] by (metis append.assoc append_Nil)
  show ?thesis
    unfolding with_suffix_def Let_def append_meta_def using sep dot one assms(2) nm by simp
qed

lemma suffix_meta_name: "suffix p = ''.meta'' \<Longrightarrow> name p \<noteq> []"
  by (auto simp: suffix_def Let_def split: if_splits)

lemma with_suffix_strip:
  assumes "suffix p = ''.meta''"
  shows "with_suffix p [] = Inr (strip_meta p)"
  using suffix_meta_name[OF assms] by (simp add: with_suffix_def strip_meta_def assms)

lemma strip_append: "name p \<noteq> [] \<Longrightarrow> strip_meta (append_meta p) = p"
  by (auto simp: strip_meta_def append_meta_def name_def)

lemma append_strip_meta:
  assumes "suffix p = ''.meta''"
  shows "append_meta (strip_meta p) = p"
proof -
  from suffix_meta_name[OF assms] have ne: "p \<noteq> []" by (auto simp: name_def)
  from suffix_is_tail[of p] assms
  have "take (length (name p) - length ''.meta'') (name p) @ ''.meta'' = name p" by simp
  then have "butlast p @ [take (length (name p) - length ''.meta'') (name p) @ ''.meta''] = p"
    using ne by (simp add: name_def)
  then show ?thesis by (simp add: append_meta_def strip_meta_def name_def)
qed

lemma suffix_append_meta: "name p \<noteq> [] \<Longrightarrow> suffix (append_meta p) = ''.meta''"
  by (simp add: append_meta_def suffix_meta_appended)

lemma wf_path_name: "wf_path p \<Longrightarrow> CHR ''/'' \<notin> set (name p)"
  by (auto simp: wf_path_def name_def)

lemma suffix_dot_meta: "name p = ''.meta'' \<Longrightarrow> suffix p = []"
  by (simp add: suffix_def rfind_def)


section \<open>What the traversal collects\<close>

lemma iterdir_member:
  assumes "iterdir fs p = Inr cs"
  shows "p @ [n] \<in> set cs \<longleftrightarrow> lookup fs (p @ [n]) \<noteq> None"
proof -
  from assms obtain ds
    where l: "lookup fs p = Some (Dir True ds) \<or> lookup fs p = Some (Unsearchable ds)"
      and cs: "cs = map (\<lambda>c. p @ [fst c]) ds"
    by (rule iterdir_listing)
  have "p @ [n] \<in> set cs \<longleftrightarrow> n \<in> fst ` set ds" by (auto simp: cs)
  also have "\<dots> \<longleftrightarrow> map_of ds n \<noteq> None" by (simp add: map_of_eq_None_iff)
  also have "\<dots> \<longleftrightarrow> lookup fs (p @ [n]) \<noteq> None"
    using l by (auto simp: lookup_append split: option.splits)
  finally show ?thesis .
qed

lemma iterdir_child_form:
  "iterdir fs p = Inr cs \<Longrightarrow> q \<in> set cs \<Longrightarrow> \<exists>n. q = p @ [n]"
  by (erule iterdir_listing) auto

lemma visited_Cons:
  "visited fs t p (n # ns) \<longleftrightarrow>
     lookup fs (p @ [n]) \<noteq> None \<and> t (p @ [n]) = Inr False \<and>
     (ns = [] \<or> (is_dir fs (p @ [n]) = Inr True \<and> visited fs t (p @ [n]) ns))"
  by (cases ns) auto

lemma below_unfold:
  assumes "iterdir fs p = Inr cs"
  shows "below fs t r p =
           {q \<in> set cs. t q = Inr False \<and> r q = Inr False} \<union>
           (\<Union>q \<in> {q \<in> set cs. t q = Inr False \<and> is_dir fs q = Inr True}. below fs t r q)"
    (is "?L = ?A \<union> ?B")
proof (rule set_eqI, rule iffI)
  fix q assume "q \<in> ?L"
  then obtain ns where q: "q = p @ ns" and v: "visited fs t p ns" and r: "r q = Inr False"
    by (auto simp: below_def)
  from v obtain n ms where ns: "ns = n # ms" by (cases ns) auto
  from v have c: "p @ [n] \<in> set cs" and t: "t (p @ [n]) = Inr False"
    by (auto simp: ns visited_Cons iterdir_member[OF assms])
  show "q \<in> ?A \<union> ?B"
  proof (cases "ms = []")
    case True
    then show ?thesis using q ns c t r by simp
  next
    case False
    with v have d: "is_dir fs (p @ [n]) = Inr True" and v': "visited fs t (p @ [n]) ms"
      by (auto simp: ns visited_Cons)
    have "q \<in> below fs t r (p @ [n])"
      unfolding below_def using q ns v' r by auto
    then show ?thesis using c t d by blast
  qed
next
  fix q assume "q \<in> ?A \<union> ?B"
  then consider (a) "q \<in> ?A" | (b) "q \<in> ?B" by blast
  then show "q \<in> ?L"
  proof cases
    case a
    then obtain n where qn: "q = p @ [n]" using iterdir_child_form[OF assms] by blast
    with a have "visited fs t p [n]" using iterdir_member[OF assms, of n] by simp
    then show ?thesis unfolding below_def using a qn by blast
  next
    case b
    then obtain c where c: "c \<in> set cs" "t c = Inr False" "is_dir fs c = Inr True"
      and qb: "q \<in> below fs t r c"
      by blast
    from c(1) obtain n where cn: "c = p @ [n]" using iterdir_child_form[OF assms] by blast
    from qb obtain ms where q: "q = c @ ms" and v: "visited fs t c ms" and r: "r q = Inr False"
      by (auto simp: below_def)
    from v have "ms \<noteq> []" by auto
    then have "visited fs t p (n # ms)"
      using v c iterdir_member[OF assms, of n] by (simp add: visited_Cons cn)
    then show ?thesis unfolding below_def using q cn r by auto
  qed
qed

text \<open>The traversal, when nothing raises, returns the accumulator enlarged by exactly the
  visited entries that the result predicate keeps.\<close>

lemma collect_sound_complete:
  shows "\<forall>S. find_elems_rec fs t r p acc = Inr S \<longrightarrow> S = acc \<union> below fs t r p"
    and "\<forall>S. descend fs t r ps acc = Inr S \<longrightarrow>
              S = acc \<union> (\<Union>q \<in> {q \<in> set ps. is_dir fs q = Inr True}. below fs t r q)"
proof (induction fs t r p acc and fs t r ps acc rule: find_elems_rec_descend.induct)
  case (1 fs t r p acc)
  show ?case
  proof (intro allI impI)
    fix S assume a: "find_elems_rec fs t r p acc = Inr S"
    then obtain cs paths results where cs: "iterdir fs p = Inr cs"
      and pa: "filter_not t cs = Inr paths" and re: "filter_not r paths = Inr results"
      and d: "descend fs t r paths (acc \<union> set results) = Inr S"
      by (auto split: sum.splits)
    from pa have paths: "paths = filter (\<lambda>x. t x = Inr False) cs" by (simp add: filter_not_Inr)
    from re have results: "results = filter (\<lambda>x. r x = Inr False) paths"
      by (simp add: filter_not_Inr)
    from "1.IH"[OF cs pa re] d
    have "S = (acc \<union> set results) \<union>
                (\<Union>q \<in> {q \<in> set paths. is_dir fs q = Inr True}. below fs t r q)" by blast
    also have "\<dots> = acc \<union> below fs t r p"
      unfolding below_unfold[OF cs] paths results by auto
    finally show "S = acc \<union> below fs t r p" .
  qed
next
  case (2 fs t r acc)
  show ?case by simp
next
  case (3 fs t r p ps acc)
  show ?case
  proof (intro allI impI)
    fix S assume a: "descend fs t r (p # ps) acc = Inr S"
    then obtain b where b: "is_dir fs p = Inr b" by (auto split: sum.splits)
    show "S = acc \<union> (\<Union>q \<in> {q \<in> set (p # ps). is_dir fs q = Inr True}. below fs t r q)"
    proof (cases b)
      case True
      with a b obtain acc' where f: "find_elems_rec fs t r p acc = Inr acc'"
        and d: "descend fs t r ps acc' = Inr S"
        by (auto split: sum.splits)
      from b True have bt: "is_dir fs p = Inr True" by simp
      from "3.IH"(1)[OF bt] f have e1: "acc' = acc \<union> below fs t r p" by blast
      from "3.IH"(2)[OF bt _ f] d
      have "S = acc' \<union> (\<Union>q \<in> {q \<in> set ps. is_dir fs q = Inr True}. below fs t r q)"
        by blast
      then show ?thesis using e1 bt by auto
    next
      case False
      with b have bf: "is_dir fs p = Inr False" by simp
      with a have d: "descend fs t r ps acc = Inr S" by simp
      with "3.IH"(3)[OF bf]
      have "S = acc \<union> (\<Union>q \<in> {q \<in> set ps. is_dir fs q = Inr True}. below fs t r q)"
        by blast
      then show ?thesis using bf by auto
    qed
  qed
qed

declare find_elems_rec.simps [simp del]

lemma find_elems_below:
  assumes "find_elems fs root t ropt = Inr S"
  shows "S = below fs t (case ropt of None \<Rightarrow> (\<lambda>_. Inr False) | Some f \<Rightarrow> f) root"
proof -
  let ?r = "case ropt of None \<Rightarrow> (\<lambda>_. Inr False) | Some f \<Rightarrow> f"
  from assms have "find_elems_rec fs t ?r root {} = Inr S"
    by (simp add: find_elems_def)
  with collect_sound_complete(1)[of fs t ?r root "{}"] have "S = {} \<union> below fs t ?r root"
    by blast
  then show ?thesis by simp
qed

lemma gather_asset_paths_below:
  "gather_asset_paths fs root ef ed = Inr A \<Longrightarrow>
     A = below fs (asset_is_excluded fs ef ed) (\<lambda>_. Inr False) root"
  using find_elems_below[of fs root "asset_is_excluded fs ef ed" None A]
  by (simp add: gather_asset_paths_def)

lemma gather_metafile_paths_below:
  "gather_metafile_paths fs root ed = Inr M \<Longrightarrow>
     M = below fs (metafile_is_excluded fs ed) (is_not_metafile fs) root"
  using find_elems_below[of fs root "metafile_is_excluded fs ed" "Some (is_not_metafile fs)" M]
  by (simp add: gather_metafile_paths_def)

lemma below_member:
  "q \<in> below fs t r p \<longleftrightarrow> (\<exists>ns. q = p @ ns \<and> visited fs t p ns \<and> r q = Inr False)"
  by (simp add: below_def)

text \<open>Every entry on the way to a visited entry is kept, and is a directory.\<close>

lemma visited_prefix_kept:
  "visited fs t p (ds @ rest) \<Longrightarrow> ds \<noteq> [] \<Longrightarrow> t (p @ ds) = Inr False"
proof (induction ds arbitrary: p)
  case Nil
  then show ?case by simp
next
  case (Cons n ds)
  show ?case
  proof (cases "ds = []")
    case True
    with Cons.prems show ?thesis by (simp add: visited_Cons)
  next
    case False
    with Cons.prems(1) have "visited fs t (p @ [n]) (ds @ rest)"
      by (simp add: visited_Cons)
    from Cons.IH[OF this False] show ?thesis by simp
  qed
qed

lemma visited_exists: "visited fs t p ns \<Longrightarrow> lookup fs (p @ ns) \<noteq> None"
proof (induction ns arbitrary: p)
  case Nil
  then show ?case by simp
next
  case (Cons n ns)
  show ?case
  proof (cases "ns = []")
    case True
    with Cons.prems show ?thesis by simp
  next
    case False
    with Cons.prems have "visited fs t (p @ [n]) ns" by (simp add: visited_Cons)
    from Cons.IH[OF this] show ?thesis by simp
  qed
qed

lemma visited_last_kept: "visited fs t p ns \<Longrightarrow> t (p @ ns) = Inr False"
  using visited_prefix_kept[of fs t p ns "[]"] by (cases ns) auto

lemma visited_ancestor_dir:
  "visited fs t p (ds @ rest) \<Longrightarrow> ds \<noteq> [] \<Longrightarrow> rest \<noteq> [] \<Longrightarrow> is_dir fs (p @ ds) = Inr True"
proof (induction ds arbitrary: p)
  case Nil
  then show ?case by simp
next
  case (Cons n ds)
  show ?case
  proof (cases "ds = []")
    case True
    with Cons.prems show ?thesis by (simp add: visited_Cons)
  next
    case False
    with Cons.prems(1) have "visited fs t (p @ [n]) (ds @ rest)"
      by (simp add: visited_Cons)
    from Cons.IH[OF this False Cons.prems(3)] show ?thesis by simp
  qed
qed

text \<open>The directories a traversal lists, one level at a time.\<close>

lemma reaches_unfold:
  assumes "iterdir fs p = Inr cs"
  shows "reaches fs t p d \<longleftrightarrow>
           d = p \<or> (\<exists>c \<in> set cs. t c = Inr False \<and> is_dir fs c = Inr True \<and> reaches fs t c d)"
proof
  assume "reaches fs t p d"
  then consider "d = p"
    | ns where "d = p @ ns" "visited fs t p ns" "is_dir fs d = Inr True"
    by (auto simp: reaches_def)
  then show "d = p \<or> (\<exists>c \<in> set cs. t c = Inr False \<and> is_dir fs c = Inr True \<and> reaches fs t c d)"
  proof cases
    case 1
    then show ?thesis by simp
  next
    case (2 ns)
    from 2(2) obtain n ms where ns: "ns = n # ms" by (cases ns) auto
    from 2(2) have c: "p @ [n] \<in> set cs" and t: "t (p @ [n]) = Inr False"
      by (auto simp: ns visited_Cons iterdir_member[OF assms])
    show ?thesis
    proof (cases "ms = []")
      case True
      with 2 ns have "is_dir fs (p @ [n]) = Inr True" "reaches fs t (p @ [n]) d"
        by (auto simp: reaches_def)
      with c t show ?thesis by blast
    next
      case False
      with 2(2) have dd: "is_dir fs (p @ [n]) = Inr True" and v: "visited fs t (p @ [n]) ms"
        by (auto simp: ns visited_Cons)
      from v 2(1,3) have "reaches fs t (p @ [n]) d"
        unfolding reaches_def ns by auto
      with c t dd show ?thesis by blast
    qed
  qed
next
  assume "d = p \<or> (\<exists>c \<in> set cs. t c = Inr False \<and> is_dir fs c = Inr True \<and> reaches fs t c d)"
  then consider "d = p"
    | c where "c \<in> set cs" "t c = Inr False" "is_dir fs c = Inr True" "reaches fs t c d"
    by blast
  then show "reaches fs t p d"
  proof cases
    case 1
    then show ?thesis by (simp add: reaches_def)
  next
    case (2 c)
    from 2(1) obtain n where cn: "c = p @ [n]" using iterdir_child_form[OF assms] by blast
    have ex: "lookup fs (p @ [n]) \<noteq> None" using 2(1) iterdir_member[OF assms, of n] cn by simp
    from 2(4) consider "d = c"
      | ms where "d = c @ ms" "visited fs t c ms" "is_dir fs d = Inr True"
      by (auto simp: reaches_def)
    then show ?thesis
    proof cases
      case 1
      with 2 cn ex have "visited fs t p [n]" "d = p @ [n]" "is_dir fs d = Inr True" by auto
      then show ?thesis unfolding reaches_def by blast
    next
      case (2 ms)
      from 2(2) have "ms \<noteq> []" by auto
      with 2(2) \<open>t c = Inr False\<close> \<open>is_dir fs c = Inr True\<close> ex
      have "visited fs t p (n # ms)" by (simp add: visited_Cons cn)
      with 2(1,3) cn show ?thesis unfolding reaches_def by auto
    qed
  qed
qed

text \<open>A traversal that returns has listed every directory it reached, and every call it
  made on an entry of such a directory has answered.\<close>

lemma traversal_returns_only_if:
  shows "\<forall>S. find_elems_rec fs t r p acc = Inr S \<longrightarrow>
              (\<forall>d. reaches fs t p d \<longrightarrow> listing_ok fs t r d)"
    and "\<forall>S. descend fs t r ps acc = Inr S \<longrightarrow>
              (\<forall>q \<in> set ps. (\<exists>b. is_dir fs q = Inr b) \<and>
                 (is_dir fs q = Inr True \<longrightarrow> (\<forall>d. reaches fs t q d \<longrightarrow> listing_ok fs t r d)))"
proof (induction fs t r p acc and fs t r ps acc rule: find_elems_rec_descend.induct)
  case (1 fs t r p acc)
  show ?case
  proof (intro allI impI)
    fix S d
    assume a: "find_elems_rec fs t r p acc = Inr S" and rd: "reaches fs t p d"
    from a obtain cs paths results where cs: "iterdir fs p = Inr cs"
      and pa: "filter_not t cs = Inr paths" and re: "filter_not r paths = Inr results"
      and de: "descend fs t r paths (acc \<union> set results) = Inr S"
      by (auto simp: find_elems_rec.simps split: sum.splits)
    from pa have tall: "\<forall>c \<in> set cs. \<exists>b. t c = Inr b"
      and paths: "paths = filter (\<lambda>x. t x = Inr False) cs" by (simp_all add: filter_not_Inr)
    from re have rall: "\<forall>c \<in> set paths. \<exists>b. r c = Inr b" by (simp add: filter_not_Inr)
    from "1.IH"[OF cs pa re] de
    have ih: "\<forall>q \<in> set paths. (\<exists>b. is_dir fs q = Inr b) \<and>
                 (is_dir fs q = Inr True \<longrightarrow> (\<forall>d. reaches fs t q d \<longrightarrow> listing_ok fs t r d))"
      by blast
    from rd consider "d = p"
      | c where "c \<in> set cs" "t c = Inr False" "is_dir fs c = Inr True" "reaches fs t c d"
      unfolding reaches_unfold[OF cs] by blast
    then show "listing_ok fs t r d"
    proof cases
      case 1
      show ?thesis unfolding listing_ok_def 1
        using cs tall rall ih paths by auto
    next
      case (2 c)
      then have "c \<in> set paths" by (simp add: paths)
      with ih 2 show ?thesis by blast
    qed
  qed
next
  case (2 fs t r acc)
  show ?case by simp
next
  case (3 fs t r p ps acc)
  show ?case
  proof (intro allI impI)
    fix S assume a: "descend fs t r (p # ps) acc = Inr S"
    then obtain b where b: "is_dir fs p = Inr b" by (auto split: sum.splits)
    show "\<forall>q \<in> set (p # ps). (\<exists>b. is_dir fs q = Inr b) \<and>
            (is_dir fs q = Inr True \<longrightarrow> (\<forall>d. reaches fs t q d \<longrightarrow> listing_ok fs t r d))"
    proof (cases b)
      case True
      with a b obtain acc' where f: "find_elems_rec fs t r p acc = Inr acc'"
        and d: "descend fs t r ps acc' = Inr S"
        by (auto split: sum.splits)
      from b True have bt: "is_dir fs p = Inr True" by simp
      from "3.IH"(1)[OF bt] f have "\<forall>d. reaches fs t p d \<longrightarrow> listing_ok fs t r d" by blast
      moreover from "3.IH"(2)[OF bt _ f] d
      have "\<forall>q \<in> set ps. (\<exists>b. is_dir fs q = Inr b) \<and>
            (is_dir fs q = Inr True \<longrightarrow> (\<forall>d. reaches fs t q d \<longrightarrow> listing_ok fs t r d))"
        by blast
      ultimately show ?thesis using bt by auto
    next
      case False
      with b have bf: "is_dir fs p = Inr False" by simp
      with a have d: "descend fs t r ps acc = Inr S" by simp
      with "3.IH"(3)[OF bf]
      have "\<forall>q \<in> set ps. (\<exists>b. is_dir fs q = Inr b) \<and>
            (is_dir fs q = Inr True \<longrightarrow> (\<forall>d. reaches fs t q d \<longrightarrow> listing_ok fs t r d))"
        by blast
      then show ?thesis using bf by auto
    qed
  qed
qed


section \<open>Entries and their kinds\<close>

lemma ancestors_member:
  "a \<in> set (ancestors root ns) \<longleftrightarrow>
     (\<exists>ds rest. ns = ds @ rest \<and> ds \<noteq> [] \<and> rest \<noteq> [] \<and> a = root @ ds)"
proof
  assume "a \<in> set (ancestors root ns)"
  then obtain k where k: "1 \<le> k" "k < length ns" and a: "a = root @ take k ns"
    by (auto simp: ancestors_def)
  have "ns = take k ns @ drop k ns" by simp
  moreover have "take k ns \<noteq> []" "drop k ns \<noteq> []" using k by auto
  ultimately show "\<exists>ds rest. ns = ds @ rest \<and> ds \<noteq> [] \<and> rest \<noteq> [] \<and> a = root @ ds"
    using a by blast
next
  assume "\<exists>ds rest. ns = ds @ rest \<and> ds \<noteq> [] \<and> rest \<noteq> [] \<and> a = root @ ds"
  then obtain ds rest where ns: "ns = ds @ rest" and ne: "ds \<noteq> []" "rest \<noteq> []"
    and a: "a = root @ ds" by blast
  have "length ds \<in> set [1 ..< length ns]" using ne by (auto simp: ns Suc_le_eq)
  moreover have "a = root @ take (length ds) ns" by (simp add: a ns)
  ultimately show "a \<in> set (ancestors root ns)" unfolding ancestors_def by (metis (mono_tags, lifting) image_eqI list.set_map)
qed

lemma lookup_stat: "lookup fs p = Some n \<Longrightarrow> stat fs p = Inr n \<or> stat fs p = Inl PermissionError"
  by (induction fs p rule: stat.induct) (auto split: option.splits)

lemma is_dir_kind: "is_dir fs p = Inr b \<Longrightarrow> lookup fs p = Some n \<Longrightarrow> b = is_directory n"
  using lookup_stat[of fs p n]
  by (auto simp: is_dir_def is_directory_def split: sum.splits node.splits if_splits)

lemma is_dir_True_stat: "is_dir fs p = Inr True \<Longrightarrow> \<exists>n. stat fs p = Inr n \<and> is_directory n"
  by (auto simp: is_dir_def is_directory_def split: sum.splits node.splits if_splits)

lemma is_dir_not_file: "is_dir fs p = Inr True \<Longrightarrow> is_file fs p = Inr False"
  by (auto simp: is_dir_def is_file_def split: sum.splits node.splits if_splits)

lemma is_file_True_lookup: "is_file fs p = Inr True \<Longrightarrow> lookup fs p = Some File"
  by (auto simp: is_file_def dest: stat_lookup split: sum.splits node.splits if_splits)

lemma is_file_not_dir: "is_file fs p = Inr True \<Longrightarrow> is_dir fs p = Inr False"
  by (auto simp: is_dir_def is_file_def split: sum.splits node.splits if_splits)


lemma lookup_prefix: "lookup fs (p @ q) \<noteq> None \<Longrightarrow> lookup fs p \<noteq> None"
  by (auto simp: lookup_append split: option.splits)

lemma lookup_prefix_directory:
  assumes "lookup fs (p @ q) \<noteq> None" and "q \<noteq> []"
  shows "\<exists>n. lookup fs p = Some n \<and> is_directory n"
proof -
  from assms(2) obtain x xs where qx: "q = x # xs" by (cases q) auto
  from assms(1) obtain m where m: "lookup fs p = Some m" and l: "lookup m (x # xs) \<noteq> None"
    by (auto simp: lookup_append qx split: option.splits)
  from l have "is_directory m" by (cases m) (auto simp: is_directory_def)
  with m show ?thesis by blast
qed

text \<open>When the traversal returns, it has visited every existing entry that the predicate
  does not exclude and that lies under no excluded entry.\<close>

lemma visited_intro:
  assumes "\<forall>d. reaches fs t p d \<longrightarrow> listing_ok fs t r d"
    and "ns \<noteq> []" and "lookup fs (p @ ns) \<noteq> None"
    and "\<forall>ds rest. ns = ds @ rest \<and> ds \<noteq> [] \<longrightarrow> t (p @ ds) \<noteq> Inr True"
  shows "visited fs t p ns"
  using assms
proof (induction ns arbitrary: p)
  case Nil
  then show ?case by simp
next
  case (Cons n ns)
  have "reaches fs t p p" by (simp add: reaches_def)
  with Cons.prems(1) obtain cs where cs: "iterdir fs p = Inr cs"
    and each: "\<forall>c \<in> set cs. (\<exists>b. t c = Inr b) \<and>
           (t c = Inr False \<longrightarrow> (\<exists>b. r c = Inr b) \<and> (\<exists>b. is_dir fs c = Inr b))"
    unfolding listing_ok_def by blast
  from Cons.prems(3) have ex: "lookup fs (p @ [n]) \<noteq> None"
    using lookup_prefix[of fs "p @ [n]" ns] by simp
  then have c: "p @ [n] \<in> set cs" by (simp add: iterdir_member[OF cs])
  from Cons.prems(4)[rule_format, of "[n]" ns] have "t (p @ [n]) \<noteq> Inr True" by simp
  with each c have tk: "t (p @ [n]) = Inr False" by (metis (full_types))
  show ?case
  proof (cases "ns = []")
    case True
    with ex tk show ?thesis by simp
  next
    case False
    from each c tk obtain b where b: "is_dir fs (p @ [n]) = Inr b" by blast
    from Cons.prems(3) False obtain m where "lookup fs (p @ [n]) = Some m" "is_directory m"
      using lookup_prefix_directory[of fs "p @ [n]" ns] by auto
    with is_dir_kind[OF b] have d: "is_dir fs (p @ [n]) = Inr True" using b by simp
    have r': "\<forall>d. reaches fs t (p @ [n]) d \<longrightarrow> listing_ok fs t r d"
      using Cons.prems(1) c tk d unfolding reaches_unfold[OF cs, of t] by blast
    have l': "lookup fs ((p @ [n]) @ ns) \<noteq> None" using Cons.prems(3) by simp
    have k': "\<forall>ds rest. ns = ds @ rest \<and> ds \<noteq> [] \<longrightarrow> t ((p @ [n]) @ ds) \<noteq> Inr True"
    proof (intro allI impI)
      fix ds rest assume "ns = ds @ rest \<and> ds \<noteq> []"
      then have "n # ns = (n # ds) @ rest \<and> n # ds \<noteq> []" by simp
      from Cons.prems(4)[rule_format, OF this] show "t ((p @ [n]) @ ds) \<noteq> Inr True" by simp
    qed
    from Cons.IH[OF r' False l' k'] have "visited fs t (p @ [n]) ns" .
    with ex tk d False show ?thesis by (simp add: visited_Cons)
  qed
qed

lemma asset_kept:
  "asset_is_excluded fs ef ed q = Inr False \<longleftrightarrow>
     (\<exists>b. is_dir fs q = Inr b \<and> name q \<notin> (if b then ed else ef) \<and> suffix q \<noteq> ''.meta'')"
  by (auto simp: asset_is_excluded_def Let_def split: sum.splits)

lemma asset_cut:
  "asset_is_excluded fs ef ed q = Inr True \<longleftrightarrow>
     (\<exists>b. is_dir fs q = Inr b \<and> (name q \<in> (if b then ed else ef) \<or> suffix q = ''.meta''))"
  by (auto simp: asset_is_excluded_def Let_def split: sum.splits)

lemma metafile_kept:
  "metafile_is_excluded fs ed q = Inr False \<longleftrightarrow>
     (\<exists>b. is_file fs q = Inr b \<and> (if b then suffix q = ''.meta'' else name q \<notin> ed))"
  by (auto simp: metafile_is_excluded_def split: sum.splits)

lemma asset_excludes_named_directory:
  "is_dir fs d = Inr True \<Longrightarrow> name d \<in> excluded_dirs \<Longrightarrow>
     asset_is_excluded fs excluded_files excluded_dirs d = Inr True"
  by (simp add: asset_is_excluded_def)

lemma metafile_excludes_named_directory:
  "is_dir fs d = Inr True \<Longrightarrow> name d \<in> excluded_dirs \<Longrightarrow>
     metafile_is_excluded fs excluded_dirs d = Inr True"
  by (simp add: metafile_is_excluded_def is_dir_not_file)



text \<open>An entry that lands in both sets is neither a regular file nor a directory.\<close>

lemma common_entries_neither_file_nor_dir:
  assumes "gather_asset_paths fs root excluded_files excluded_dirs = Inr A"
    and "gather_metafile_paths fs root excluded_dirs = Inr M"
    and "q \<in> A" and "q \<in> M"
  shows "is_file fs q = Inr False \<and> is_dir fs q = Inr False"
proof -
  from gather_asset_paths_below[OF assms(1)] assms(3)
  have a: "asset_is_excluded fs excluded_files excluded_dirs q = Inr False"
    by (auto simp: below_member dest: visited_last_kept)
  from gather_metafile_paths_below[OF assms(2)] assms(4)
  have m: "metafile_is_excluded fs excluded_dirs q = Inr False" and d: "is_dir fs q = Inr False"
    by (auto simp: below_member is_not_metafile_def dest: visited_last_kept)
  from a m d show ?thesis
    unfolding asset_kept metafile_kept by (auto split: if_splits)
qed

section \<open>Replacing a subtree\<close>

lemma map_of_update:
  "map_of (map (\<lambda>c. if fst c = x then (fst c, update (snd c) xs m) else c) cs) y
     = map_option (\<lambda>v. if y = x then update v xs m else v) (map_of cs y)"
  by (induction cs) auto

lemma same_names:
  assumes "map (\<lambda>c. (fst c, File)) a = map (\<lambda>c. (fst c, File)) b"
  shows "map (\<lambda>c. p @ [fst c]) a = map (\<lambda>c. p @ [fst c]) b"
proof -
  from assms have "map fst (map (\<lambda>c. (fst c, File)) a) = map fst (map (\<lambda>c. (fst c, File)) b)"
    by simp
  then have "map fst a = map fst b" by (simp add: comp_def)
  then have "map (\<lambda>n. p @ [n]) (map fst a) = map (\<lambda>n. p @ [n]) (map fst b)" by simp
  then show ?thesis by (simp add: comp_def)
qed

lemma view_update: "d \<noteq> [] \<Longrightarrow> view (update fs d m) = view fs"
  by (cases fs; cases d) (auto simp: view_def)

lemma stat_update_off:
  "take (length d) q \<noteq> d \<Longrightarrow>
     map_sum (\<lambda>e. e) view (stat (update fs d m) q) = map_sum (\<lambda>e. e) view (stat fs q)"
proof (induction q arbitrary: fs d)
  case Nil
  then have "d \<noteq> []" by auto
  then show ?case by (simp add: view_update)
next
  case (Cons y ys)
  then obtain x xs where d: "d = x # xs" by (cases d) auto
  show ?case
  proof (cases fs)
    case (Dir ok cs)
    show ?thesis
    proof (cases "map_of cs y")
      case None
      then show ?thesis by (simp add: Dir d map_of_update)
    next
      case (Some c)
      show ?thesis
      proof (cases "y = x")
        case True
        with Cons.prems d have "take (length xs) ys \<noteq> xs" by simp
        from Cons.IH[OF this, of c] have ih:
          "map_sum (\<lambda>e. e) view (stat (update c xs m) ys) = map_sum (\<lambda>e. e) view (stat c ys)" .
        from Some True have sx: "map_of cs x = Some c" by simp
        show ?thesis using ih by (simp add: Dir d map_of_update True sx)
      next
        case False
        then show ?thesis by (simp add: Dir d map_of_update Some)
      qed
    qed
  qed (simp_all add: d)
qed

lemma stat_update_at: "stat fs d = Inr n \<Longrightarrow> stat (update fs d m) d = Inr m"
proof (induction d arbitrary: fs)
  case Nil
  then show ?case by simp
next
  case (Cons x xs)
  then show ?case
    by (cases fs) (auto simp: map_of_update split: option.splits)
qed

lemma is_dir_view:
  "map_sum (\<lambda>e. e) view (stat fs' p) = map_sum (\<lambda>e. e) view (stat fs p) \<Longrightarrow> is_dir fs' p = is_dir fs p"
  by (cases "stat fs p"; cases "stat fs' p")
     (auto simp: is_dir_def view_def split: node.splits)

lemma is_file_view:
  "map_sum (\<lambda>e. e) view (stat fs' p) = map_sum (\<lambda>e. e) view (stat fs p) \<Longrightarrow> is_file fs' p = is_file fs p"
  by (cases "stat fs p"; cases "stat fs' p")
     (auto simp: is_file_def view_def split: node.splits)

lemma iterdir_view:
  "map_sum (\<lambda>e. e) view (stat fs' p) = map_sum (\<lambda>e. e) view (stat fs p) \<Longrightarrow> iterdir fs' p = iterdir fs p"
  by (cases "stat fs p"; cases "stat fs' p")
     (auto simp: iterdir_def view_def split: node.splits dest: same_names)

lemma filter_not_cong: "(\<forall>x \<in> set xs. f x = g x) \<Longrightarrow> filter_not f xs = filter_not g xs"
proof (induction xs)
  case Nil
  show ?case by simp
next
  case (Cons a xs)
  then have "filter_not f xs = filter_not g xs" and "f a = g a" by simp_all
  then show ?case by (simp split: sum.splits)
qed

text \<open>Two traversals that agree wherever the first one looks return the same.\<close>

lemma traversal_cong:
  shows "(\<forall>q. G q \<longrightarrow> iterdir fs' q = iterdir fs q) \<Longrightarrow>
         (\<forall>q cs c. G q \<longrightarrow> iterdir fs q = Inr cs \<longrightarrow> c \<in> set cs \<longrightarrow>
             t' c = t c \<and> r' c = r c \<and> is_dir fs' c = is_dir fs c \<and>
             (t c = Inr False \<longrightarrow> is_dir fs c = Inr True \<longrightarrow> G c)) \<Longrightarrow>
         G p \<Longrightarrow>
         find_elems_rec fs' t' r' p acc = find_elems_rec fs t r p acc"
    and "(\<forall>q. G q \<longrightarrow> iterdir fs' q = iterdir fs q) \<Longrightarrow>
         (\<forall>q cs c. G q \<longrightarrow> iterdir fs q = Inr cs \<longrightarrow> c \<in> set cs \<longrightarrow>
             t' c = t c \<and> r' c = r c \<and> is_dir fs' c = is_dir fs c \<and>
             (t c = Inr False \<longrightarrow> is_dir fs c = Inr True \<longrightarrow> G c)) \<Longrightarrow>
         (\<forall>c \<in> set ps. is_dir fs' c = is_dir fs c \<and> (is_dir fs c = Inr True \<longrightarrow> G c)) \<Longrightarrow>
         descend fs' t' r' ps acc = descend fs t r ps acc"
proof (induction fs t r p acc and fs t r ps acc rule: find_elems_rec_descend.induct)
  case (1 fs t r p acc)
  from "1.prems"(1,3) have l: "iterdir fs' p = iterdir fs p" by blast
  show ?case
  proof (cases "iterdir fs p")
    case (Inl e)
    with l show ?thesis by (simp add: find_elems_rec.simps)
  next
    case cs: (Inr cs)
    from "1.prems"(2,3) cs
    have each: "\<forall>c \<in> set cs. t' c = t c \<and> r' c = r c \<and> is_dir fs' c = is_dir fs c \<and>
             (t c = Inr False \<longrightarrow> is_dir fs c = Inr True \<longrightarrow> G c)" by blast
    then have ft: "filter_not t' cs = filter_not t cs" by (intro filter_not_cong) blast
    show ?thesis
    proof (cases "filter_not t cs")
      case (Inl e)
      with l cs ft show ?thesis by (simp add: find_elems_rec.simps)
    next
      case pa: (Inr paths)
      then have sub: "set paths \<subseteq> set cs" and kept: "\<forall>c \<in> set paths. t c = Inr False"
        by (auto simp: filter_not_Inr)
      from each sub have fr: "filter_not r' paths = filter_not r paths"
        by (intro filter_not_cong) blast
      show ?thesis
      proof (cases "filter_not r paths")
        case (Inl e)
        with l cs ft pa fr show ?thesis by (simp add: find_elems_rec.simps)
      next
        case re: (Inr results)
        have "\<forall>c \<in> set paths. is_dir fs' c = is_dir fs c \<and> (is_dir fs c = Inr True \<longrightarrow> G c)"
          using each sub kept by blast
        from "1.IH"[OF cs pa re "1.prems"(1,2) this]
        show ?thesis using l cs ft pa fr re by (simp add: find_elems_rec.simps)
      qed
    qed
  qed
next
  case (2 fs t r acc)
  show ?case by simp
next
  case (3 fs t r p ps acc)
  from "3.prems"(3) have d: "is_dir fs' p = is_dir fs p"
    and g: "is_dir fs p = Inr True \<longrightarrow> G p"
    and rest: "\<forall>c \<in> set ps. is_dir fs' c = is_dir fs c \<and> (is_dir fs c = Inr True \<longrightarrow> G c)"
    by simp_all
  show ?case
  proof (cases "is_dir fs p")
    case (Inl e)
    with d show ?thesis by simp
  next
    case (Inr b)
    show ?thesis
    proof (cases b)
      case True
      with Inr have bt: "is_dir fs p = Inr True" by simp
      with g have "G p" by simp
      from "3.IH"(1)[OF bt _ "3.prems"(1,2) this]
      have f: "find_elems_rec fs' t' r' p acc = find_elems_rec fs t r p acc" by simp
      show ?thesis
      proof (cases "find_elems_rec fs t r p acc")
        case (Inl e)
        with f d bt show ?thesis by simp
      next
        case a: (Inr acc')
        from "3.IH"(2)[OF bt _ a "3.prems"(1,2) rest]
        show ?thesis using f d bt a by simp
      qed
    next
      case False
      with Inr have bf: "is_dir fs p = Inr False" by simp
      from "3.IH"(3)[OF bf _ "3.prems"(1,2) rest] show ?thesis using d bf by simp
    qed
  qed
qed

text \<open>Replacing a directory that a predicate excludes by any other directory changes
  nothing that the traversal looks at.\<close>

lemma excluded_subtree_unseen:
  assumes d: "is_dir fs (root @ ds) = Inr True" and ne: "ds \<noteq> []" and m: "is_directory m"
    and tx: "t (root @ ds) \<noteq> Inr False"
    and tdep: "\<forall>c. is_dir (update fs (root @ ds) m) c = is_dir fs c \<longrightarrow>
                   is_file (update fs (root @ ds) m) c = is_file fs c \<longrightarrow> t' c = t c \<and> r' c = r c"
  shows "find_elems_rec (update fs (root @ ds) m) t' r' root acc = find_elems_rec fs t r root acc"
proof -
  let ?d = "root @ ds" and ?fs = "update fs (root @ ds) m"
  let ?G = "\<lambda>q. take (length ?d) q \<noteq> ?d"
  from is_dir_True_stat[OF d] obtain n where n: "stat fs ?d = Inr n" "is_directory n" by blast
  from stat_update_at[OF n(1), of m] have sm: "stat ?fs ?d = Inr m" .
  have dd: "is_dir ?fs ?d = Inr True" "is_file ?fs ?d = Inr False"
    using sm m by (auto simp: is_dir_def is_file_def is_directory_def split: node.splits)
  have df: "is_file fs ?d = Inr False" using d by (rule is_dir_not_file)
  have same: "is_dir ?fs c = is_dir fs c \<and> is_file ?fs c = is_file fs c"
    if "c = ?d \<or> ?G c" for c
  proof (cases "c = ?d")
    case True
    with dd d df show ?thesis by simp
  next
    case False
    with that have g: "?G c" by simp
    show ?thesis
      using is_dir_view[OF stat_update_off[OF g]] is_file_view[OF stat_update_off[OF g]]
      by blast
  qed
  have child: "c = ?d \<or> ?G c" if "?G q" "iterdir fs q = Inr cs" "c \<in> set cs" for q cs c
  proof -
    from that(2,3) obtain x where c: "c = q @ [x]" using iterdir_child_form by blast
    show ?thesis
    proof (cases "length ?d \<le> length q")
      case True
      with that(1) show ?thesis by (simp add: c)
    next
      case False
      then have "take (length ?d) c = c" by (simp add: c)
      then show ?thesis by auto
    qed
  qed
  have 1: "\<forall>q. ?G q \<longrightarrow> iterdir ?fs q = iterdir fs q"
  proof (intro allI impI)
    fix q assume "?G q"
    from iterdir_view[OF stat_update_off[OF this]] show "iterdir ?fs q = iterdir fs q" .
  qed
  have 2: "\<forall>q cs c. ?G q \<longrightarrow> iterdir fs q = Inr cs \<longrightarrow> c \<in> set cs \<longrightarrow>
             t' c = t c \<and> r' c = r c \<and> is_dir ?fs c = is_dir fs c \<and>
             (t c = Inr False \<longrightarrow> is_dir fs c = Inr True \<longrightarrow> ?G c)"
  proof (intro allI impI)
    fix q cs c assume a: "?G q" "iterdir fs q = Inr cs" "c \<in> set cs"
    from child[OF a] have c: "c = ?d \<or> ?G c" .
    from same[OF c] tdep have "t' c = t c \<and> r' c = r c \<and> is_dir ?fs c = is_dir fs c" by blast
    moreover have "?G c" if "t c = Inr False" using c that tx by auto
    ultimately show "t' c = t c \<and> r' c = r c \<and> is_dir ?fs c = is_dir fs c \<and>
             (t c = Inr False \<longrightarrow> is_dir fs c = Inr True \<longrightarrow> ?G c)" by blast
  qed
  have 3: "?G root" using ne by simp
  from traversal_cong(1)[of ?G ?fs fs t' t r' r root acc, OF 1 2 3] show ?thesis .
qed

section \<open>Facts about the event line\<close>

lemma join_space:
  "join '' '' (x # map f ps) = x @ concat (map (\<lambda>p. CHR '' '' # f p) ps)"
  by (induction ps arbitrary: x) auto

lemma msg_render: "msg m = ''##teamcity['' @ text' m @ render (properties m) @ '']''"
proof -
  have "join '' '' (text' m # map (\<lambda>(key, value). key @ ''='' @ [CHR 0x27] @ value @ [CHR 0x27]) (properties m))
        = text' m @ render (properties m)"
    unfolding join_space render_def by (simp add: case_prod_beta)
  then show ?thesis by (simp add: msg_def)
qed

lemma split_at_first:
  "c \<notin> set xs \<Longrightarrow> c \<notin> set ys \<Longrightarrow> xs @ c # r = ys @ c # r' \<Longrightarrow> xs = ys \<and> r = r'"
proof (induction xs arbitrary: ys)
  case Nil
  then show ?case by (cases ys) auto
next
  case (Cons x xs)
  then show ?case by (cases ys) auto
qed

lemma takeWhile_upto: "c \<notin> set xs \<Longrightarrow> takeWhile (\<lambda>x. x \<noteq> c) (xs @ c # r) = xs"
  by (induction xs) auto

lemma takeWhile_all: "c \<notin> set xs \<Longrightarrow> takeWhile (\<lambda>x. x \<noteq> c) xs = xs"
  by (induction xs) auto

lemma render_inj:
  assumes "\<forall>kv \<in> set ps. CHR ''='' \<notin> set (fst kv) \<and> CHR 0x27 \<notin> set (snd kv)"
    and "\<forall>kv \<in> set qs. CHR ''='' \<notin> set (fst kv) \<and> CHR 0x27 \<notin> set (snd kv)"
    and "render ps = render qs"
  shows "ps = qs"
  using assms
proof (induction ps arbitrary: qs)
  case Nil
  then show ?case by (cases qs) (auto simp: render_def)
next
  case (Cons p ps)
  then obtain q qs' where qs: "qs = q # qs'" by (cases qs) (auto simp: render_def)
  from Cons.prems(3) have e1:
    "fst p @ CHR ''='' # (CHR 0x27 # snd p @ CHR 0x27 # render ps)
     = fst q @ CHR ''='' # (CHR 0x27 # snd q @ CHR 0x27 # render qs')"
    by (simp add: qs render_def)
  have nk: "CHR ''='' \<notin> set (fst p)" "CHR ''='' \<notin> set (fst q)"
    and nv: "CHR 0x27 \<notin> set (snd p)" "CHR 0x27 \<notin> set (snd q)"
    using Cons.prems(1,2) by (simp_all add: qs)
  from split_at_first[OF nk e1] have k: "fst p = fst q"
    and e2: "snd p @ CHR 0x27 # render ps = snd q @ CHR 0x27 # render qs'"
    by simp_all
  from split_at_first[OF nv e2] have v: "snd p = snd q" and e3: "render ps = render qs'"
    by simp_all
  from Cons.IH[OF _ _ e3] Cons.prems(1,2) have "ps = qs'" by (simp add: qs)
  with k v show ?case by (simp add: qs prod_eq_iff)
qed

lemma render_head: "render ps = [] \<or> hd (render ps) = CHR '' ''"
  by (cases ps) (auto simp: render_def)

lemma text_render_inj:
  assumes "CHR '' '' \<notin> set a" and "CHR '' '' \<notin> set b" and "a @ render ps = b @ render qs"
  shows "a = b \<and> render ps = render qs"
proof -
  have tw: "takeWhile (\<lambda>c. c \<noteq> CHR '' '') (x @ render rs) = x" if "CHR '' '' \<notin> set x" for x rs
  proof (cases "render rs")
    case Nil
    with that show ?thesis by (simp add: takeWhile_all)
  next
    case (Cons c cs)
    with render_head[of rs] have "c = CHR '' ''" by simp
    with Cons that show ?thesis by (simp add: takeWhile_upto)
  qed
  from assms(3) have "takeWhile (\<lambda>c. c \<noteq> CHR '' '') (a @ render ps)
                      = takeWhile (\<lambda>c. c \<noteq> CHR '' '') (b @ render qs)" by simp
  then have "a = b" using tw[OF assms(1)] tw[OF assms(2)] by simp
  with assms(3) show ?thesis by simp
qed

section \<open>Facts about the runners\<close>













section \<open>Claims about the consistency checks\<close>

text \<open>
  Claim C1, as amended. For every path \<open>asset\<close> with a non-empty name and every set of
  paths \<open>metafiles\<close>, \<^verbatim>\<open>is_missing_metafile(asset, metafiles)\<close> returns, and returns true
  if and only if the path obtained by appending the literal \<open>.meta\<close> to the full name of
  \<open>asset\<close> is not an element of \<open>metafiles\<close>.
\<close>

theorem is_missing_metafile_named:
  assumes "wf_path asset" and "name asset \<noteq> []"
  shows "is_missing_metafile asset metafiles = Inr (append_meta asset \<notin> metafiles)"
  using with_suffix_append[OF wf_path_name[OF assms(1)] assms(2)]
  by (simp add: is_missing_metafile_def)

text \<open>The theorem at \<^verbatim>\<open>Assets/a.txt\<close>, once with and once without its metafile.\<close>

theorem is_missing_metafile_named_witness:
  "wf_path [''Assets'', ''a.txt''] \<and> name [''Assets'', ''a.txt''] \<noteq> [] \<and>
   is_missing_metafile [''Assets'', ''a.txt''] {[''Assets'', ''a.txt.meta'']} = Inr False \<and>
   is_missing_metafile [''Assets'', ''a.txt''] {[''Assets'', ''b.txt.meta'']} = Inr True"
proof -
  have w: "wf_path [''Assets'', ''a.txt'']" by (simp add: wf_path_def)
  have n: "name [''Assets'', ''a.txt''] \<noteq> []" by (simp add: name_def)
  show ?thesis
    using w n is_missing_metafile_named[OF w n, of "{[''Assets'', ''a.txt.meta'']}"]
      is_missing_metafile_named[OF w n, of "{[''Assets'', ''b.txt.meta'']}"]
    by (simp add: append_meta_def name_def)
qed

text \<open>Claim C1 as stated fails at the anchor \<^verbatim>\<open>Path('.')\<close>: its name is empty, so
  \<^verbatim>\<open>with_suffix\<close> raises \<^verbatim>\<open>ValueError\<close> and the check returns nothing, although the
  appended path is absent from the empty set.\<close>

theorem is_missing_metafile_anchor_raises:
  "is_missing_metafile [] {} = Inl ValueError \<and> append_meta [] \<notin> ({} :: path set)"
  by (simp add: is_missing_metafile_def with_suffix_def suffix_def name_def rfind_def)

text \<open>
  Claim C2. For every path \<open>metafile\<close> whose suffix is \<open>.meta\<close> and every set of paths
  \<open>assets\<close>, \<^verbatim>\<open>is_dangling_metafile(metafile, assets)\<close> returns true if and only if the
  path obtained by removing the trailing \<open>.meta\<close> from \<open>metafile\<close> is not an element of
  \<open>assets\<close>; appending \<open>.meta\<close> to that path gives \<open>metafile\<close> back.
\<close>

theorem is_dangling_metafile_correct:
  assumes "suffix metafile = ''.meta''"
  shows "is_dangling_metafile metafile assets = Inr (strip_meta metafile \<notin> assets) \<and>
         append_meta (strip_meta metafile) = metafile"
  using with_suffix_strip[OF assms] append_strip_meta[OF assms]
  by (simp add: is_dangling_metafile_def)

text \<open>The theorem at \<^verbatim>\<open>Assets/a.txt.meta\<close>, once with and once without its asset.\<close>

theorem is_dangling_metafile_correct_witness:
  "suffix [''Assets'', ''a.txt.meta''] = ''.meta'' \<and>
   is_dangling_metafile [''Assets'', ''a.txt.meta''] {[''Assets'', ''a.txt'']} = Inr False \<and>
   is_dangling_metafile [''Assets'', ''a.txt.meta''] {[''Assets'', ''b.txt'']} = Inr True"
proof -
  have s: "suffix [''Assets'', ''a.txt.meta''] = ''.meta''"
    by (simp add: suffix_def name_def rfind_def)
  show ?thesis
    using s is_dangling_metafile_correct[OF s, of "{[''Assets'', ''a.txt'']}"]
      is_dangling_metafile_correct[OF s, of "{[''Assets'', ''b.txt'']}"]
    by (simp add: strip_meta_def name_def)
qed

text \<open>
  Claim C3, as amended. For every path with a non-empty name whose suffix is not \<open>.meta\<close>,
  the path that \<^verbatim>\<open>is_missing_metafile\<close> looks for (\<open>.meta\<close> appended to the full name),
  put through the transformation of \<^verbatim>\<open>is_dangling_metafile\<close> (the last suffix removed),
  is the original path again.
\<close>

theorem append_then_strip_identity:
  assumes "wf_path p" and "name p \<noteq> []" and "suffix p \<noteq> ''.meta''"
  shows "(case with_suffix p (suffix p @ ''.meta'') of
            Inl e \<Rightarrow> Inl e
          | Inr m \<Rightarrow> with_suffix m []) = Inr p"
  using with_suffix_append[OF wf_path_name[OF assms(1)] assms(2)]
    with_suffix_strip[OF suffix_append_meta[OF assms(2)]] strip_append[OF assms(2)]
  by simp

text \<open>The theorem at \<^verbatim>\<open>Assets/a.tar.gz\<close>.\<close>

theorem append_then_strip_identity_witness:
  "wf_path [''Assets'', ''a.tar.gz''] \<and> name [''Assets'', ''a.tar.gz''] \<noteq> [] \<and>
   suffix [''Assets'', ''a.tar.gz''] \<noteq> ''.meta'' \<and>
   (case with_suffix [''Assets'', ''a.tar.gz''] (suffix [''Assets'', ''a.tar.gz''] @ ''.meta'') of
      Inl e \<Rightarrow> Inl e
    | Inr m \<Rightarrow> with_suffix m []) = Inr [''Assets'', ''a.tar.gz'']"
proof -
  have w: "wf_path [''Assets'', ''a.tar.gz'']" by (simp add: wf_path_def)
  have n: "name [''Assets'', ''a.tar.gz''] \<noteq> []" by (simp add: name_def)
  have s: "suffix [''Assets'', ''a.tar.gz''] \<noteq> ''.meta''"
    by (simp add: suffix_def name_def rfind_def)
  show ?thesis using w n s append_then_strip_identity[OF w n s] by simp
qed

text \<open>Claim C3 as stated fails at the anchor \<^verbatim>\<open>Path('.')\<close>, whose suffix is not
  \<open>.meta\<close>: appending raises \<^verbatim>\<open>ValueError\<close>, so there is no path to strip.\<close>

theorem append_then_strip_anchor_raises:
  "suffix [] \<noteq> ''.meta'' \<and>
   (case with_suffix [] (suffix [] @ ''.meta'') of
      Inl e \<Rightarrow> Inl e
    | Inr m \<Rightarrow> with_suffix m []) = Inl ValueError"
  by (simp add: with_suffix_def suffix_def name_def rfind_def)

section \<open>Claims about the collected sets\<close>

text \<open>
  Claim C4, as amended. For every tree, every root, every \<open>excluded_dirs\<close> and every
  directory strictly below the root whose name is in \<open>excluded_dirs\<close>: no path equal to
  that directory or lying beneath it, at any depth, is an element of the asset set or of
  the metafile set; and neither traversal descends into the directory, for what either
  returns, a set or an error, stays the same when the directory is replaced by any other
  directory, whatever that one holds and whether or not it can be listed or searched.
\<close>

theorem excluded_directory_contributes_nothing:
  assumes "ds \<noteq> []" and "is_dir fs (root @ ds) = Inr True"
    and "name (root @ ds) \<in> excluded_dirs"
  shows "(\<forall>A. gather_asset_paths fs root excluded_files excluded_dirs = Inr A
              \<longrightarrow> root @ ds @ rest \<notin> A) \<and>
         (\<forall>M. gather_metafile_paths fs root excluded_dirs = Inr M
              \<longrightarrow> root @ ds @ rest \<notin> M) \<and>
         (\<forall>m. is_directory m \<longrightarrow>
              gather_asset_paths (update fs (root @ ds) m) root excluded_files excluded_dirs
                = gather_asset_paths fs root excluded_files excluded_dirs \<and>
              gather_metafile_paths (update fs (root @ ds) m) root excluded_dirs
                = gather_metafile_paths fs root excluded_dirs)"
proof -
  have ta: "asset_is_excluded fs excluded_files excluded_dirs (root @ ds) = Inr True"
    using assms(2,3) by (rule asset_excludes_named_directory)
  have tm: "metafile_is_excluded fs excluded_dirs (root @ ds) = Inr True"
    using assms(2,3) by (rule metafile_excludes_named_directory)
  have a: "root @ ds @ rest \<notin> A"
    if "gather_asset_paths fs root excluded_files excluded_dirs = Inr A" for A
  proof
    assume "root @ ds @ rest \<in> A"
    with gather_asset_paths_below[OF that]
    have "visited fs (asset_is_excluded fs excluded_files excluded_dirs) root (ds @ rest)"
      by (auto simp: below_member)
    from visited_prefix_kept[OF this assms(1)] ta show False by simp
  qed
  have m: "root @ ds @ rest \<notin> M"
    if "gather_metafile_paths fs root excluded_dirs = Inr M" for M
  proof
    assume "root @ ds @ rest \<in> M"
    with gather_metafile_paths_below[OF that]
    have "visited fs (metafile_is_excluded fs excluded_dirs) root (ds @ rest)"
      by (auto simp: below_member)
    from visited_prefix_kept[OF this assms(1)] tm show False by simp
  qed
  have u: "gather_asset_paths (update fs (root @ ds) m) root excluded_files excluded_dirs
                = gather_asset_paths fs root excluded_files excluded_dirs \<and>
           gather_metafile_paths (update fs (root @ ds) m) root excluded_dirs
                = gather_metafile_paths fs root excluded_dirs"
    if "is_directory m" for m
  proof
    have xa: "asset_is_excluded fs excluded_files excluded_dirs (root @ ds) \<noteq> Inr False"
      by (simp add: ta)
    have da: "\<forall>c. is_dir (update fs (root @ ds) m) c = is_dir fs c \<longrightarrow>
                is_file (update fs (root @ ds) m) c = is_file fs c \<longrightarrow>
                asset_is_excluded (update fs (root @ ds) m) excluded_files excluded_dirs c
                  = asset_is_excluded fs excluded_files excluded_dirs c \<and>
                (\<lambda>_. Inr False :: error + bool) c = (\<lambda>_. Inr False) c"
      by (simp add: asset_is_excluded_def)
    show "gather_asset_paths (update fs (root @ ds) m) root excluded_files excluded_dirs
                = gather_asset_paths fs root excluded_files excluded_dirs"
      unfolding gather_asset_paths_def find_elems_def Let_def option.case
      by (rule excluded_subtree_unseen[OF assms(2,1) that xa da])
    have xm: "metafile_is_excluded fs excluded_dirs (root @ ds) \<noteq> Inr False"
      by (simp add: tm)
    have dm: "\<forall>c. is_dir (update fs (root @ ds) m) c = is_dir fs c \<longrightarrow>
                is_file (update fs (root @ ds) m) c = is_file fs c \<longrightarrow>
                metafile_is_excluded (update fs (root @ ds) m) excluded_dirs c
                  = metafile_is_excluded fs excluded_dirs c \<and>
                is_not_metafile (update fs (root @ ds) m) c = is_not_metafile fs c"
      by (simp add: metafile_is_excluded_def is_not_metafile_def)
    show "gather_metafile_paths (update fs (root @ ds) m) root excluded_dirs
                = gather_metafile_paths fs root excluded_dirs"
      unfolding gather_metafile_paths_def find_elems_def Let_def option.case
      by (rule excluded_subtree_unseen[OF assms(2,1) that xm dm])
  qed
  show ?thesis using a m u by blast
qed

text \<open>The theorem on a tree with an excluded directory \<^verbatim>\<open>build\<close> holding an asset and
  its metafile, next to an asset and its metafile at the top; \<^verbatim>\<open>build\<close> is then replaced
  by a directory that cannot be listed.\<close>

theorem excluded_directory_contributes_nothing_witness:
  "[''build''] \<noteq> [] \<and>
   is_dir (Dir True [(''build'', Dir True [(''d.txt'', File), (''d.txt.meta'', File)]),
                     (''a.txt'', File), (''a.txt.meta'', File)]) ([] @ [''build'']) = Inr True \<and>
   name ([] @ [''build'']) \<in> {''build''} \<and>
   gather_asset_paths
     (Dir True [(''build'', Dir True [(''d.txt'', File), (''d.txt.meta'', File)]),
                (''a.txt'', File), (''a.txt.meta'', File)]) [] {} {''build''}
     = Inr {[''a.txt'']} \<and>
   gather_metafile_paths
     (Dir True [(''build'', Dir True [(''d.txt'', File), (''d.txt.meta'', File)]),
                (''a.txt'', File), (''a.txt.meta'', File)]) [] {''build''}
     = Inr {[''a.txt.meta'']} \<and>
   [] @ [''build''] @ [''d.txt''] \<notin> {[''a.txt'']} \<and>
   [] @ [''build''] @ [''d.txt.meta''] \<notin> {[''a.txt.meta'']} \<and>
   is_directory (Dir False []) \<and>
   gather_asset_paths
     (update (Dir True [(''build'', Dir True [(''d.txt'', File), (''d.txt.meta'', File)]),
                        (''a.txt'', File), (''a.txt.meta'', File)]) ([] @ [''build''])
        (Dir False [])) [] {} {''build''}
     = Inr {[''a.txt'']} \<and>
   gather_metafile_paths
     (update (Dir True [(''build'', Dir True [(''d.txt'', File), (''d.txt.meta'', File)]),
                        (''a.txt'', File), (''a.txt.meta'', File)]) ([] @ [''build''])
        (Dir False [])) [] {''build''}
     = Inr {[''a.txt.meta'']}"
proof -
  let ?fs = "Dir True [(''build'', Dir True [(''d.txt'', File), (''d.txt.meta'', File)]),
                       (''a.txt'', File), (''a.txt.meta'', File)]"
  have h1: "[''build''] \<noteq> []" by simp
  have h2: "is_dir ?fs ([] @ [''build'']) = Inr True" by code_simp
  have h3: "name ([] @ [''build'']) \<in> {''build''}" by code_simp
  have ga: "gather_asset_paths ?fs [] {} {''build''} = Inr {[''a.txt'']}" by code_simp
  have gm: "gather_metafile_paths ?fs [] {''build''} = Inr {[''a.txt.meta'']}" by code_simp
  have dm: "is_directory (Dir False [])" by (simp add: is_directory_def)
  note t1 = excluded_directory_contributes_nothing[OF h1 h2 h3, of "{}" "[''d.txt'']"]
  note t2 = excluded_directory_contributes_nothing[OF h1 h2 h3, of "{}" "[''d.txt.meta'']"]
  from t1 ga have c1: "[] @ [''build''] @ [''d.txt''] \<notin> {[''a.txt'']}" by blast
  from t2 gm have c2: "[] @ [''build''] @ [''d.txt.meta''] \<notin> {[''a.txt.meta'']}" by blast
  from t1 dm ga
  have c3: "gather_asset_paths (update ?fs ([] @ [''build'']) (Dir False [])) [] {} {''build''}
              = Inr {[''a.txt'']}" by metis
  from t1 dm gm
  have c4: "gather_metafile_paths (update ?fs ([] @ [''build'']) (Dir False [])) [] {''build''}
              = Inr {[''a.txt.meta'']}" by metis
  from h1 h2 h3 ga gm c1 c2 dm c3 c4 show ?thesis by blast
qed

text \<open>Claim C4 as stated fails for the root itself: the exclusion is tested on the
  children of a listed directory only, so a root named \<^verbatim>\<open>build\<close> is traversed although
  \<^verbatim>\<open>build\<close> is in \<open>excluded_dirs\<close>, and the file beneath it is collected.\<close>

theorem root_named_in_excluded_dirs_is_traversed:
  "is_dir (Dir True [(''build'', Dir True [(''a.txt'', File)])]) [''build''] = Inr True \<and>
   name [''build''] \<in> {''build''} \<and>
   gather_asset_paths (Dir True [(''build'', Dir True [(''a.txt'', File)])])
      [''build''] {} {''build''} = Inr {[''build''] @ [''a.txt'']}"
  by code_simp

text \<open>
  Claim C5, as amended. When the asset traversal returns, every element of the asset set
  is an existing entry strictly under the root, a regular file, a directory or any other
  kind of entry, whose name is not in the exclusion set of its kind (\<open>excluded_directories\<close>
  for a directory, \<open>excluded_files\<close> otherwise), whose suffix is not \<open>.meta\<close>, and none
  of whose ancestors below the root is named in \<open>excluded_directories\<close>. Conversely every
  such entry is an element of the asset set, provided that none of its ancestors below the
  root has the suffix \<open>.meta\<close>.
\<close>

theorem asset_set_exact:
  assumes "gather_asset_paths fs root excluded_files excluded_directories = Inr A"
  shows "(\<forall>q \<in> A. \<exists>ns. ns \<noteq> [] \<and> q = root @ ns \<and> lookup fs q \<noteq> None \<and>
            name q \<notin> (if is_dir fs q = Inr True then excluded_directories else excluded_files) \<and>
            suffix q \<noteq> ''.meta'' \<and>
            (\<forall>a \<in> set (ancestors root ns). name a \<notin> excluded_directories)) \<and>
         (\<forall>ns. ns \<noteq> [] \<longrightarrow> lookup fs (root @ ns) \<noteq> None \<longrightarrow>
            name (root @ ns) \<notin> (if is_dir fs (root @ ns) = Inr True
                                   then excluded_directories else excluded_files) \<longrightarrow>
            suffix (root @ ns) \<noteq> ''.meta'' \<longrightarrow>
            (\<forall>a \<in> set (ancestors root ns).
                name a \<notin> excluded_directories \<and> suffix a \<noteq> ''.meta'') \<longrightarrow>
            root @ ns \<in> A)"
proof (intro conjI ballI allI impI)
  let ?t = "asset_is_excluded fs excluded_files excluded_directories"
  fix q assume "q \<in> A"
  with gather_asset_paths_below[OF assms] obtain ns where q: "q = root @ ns"
    and v: "visited fs ?t root ns" by (auto simp: below_member)
  from v have ne: "ns \<noteq> []" by auto
  from visited_last_kept[OF v] obtain b where b: "is_dir fs q = Inr b"
    and nm: "name q \<notin> (if b then excluded_directories else excluded_files)"
    and sf: "suffix q \<noteq> ''.meta''"
    unfolding asset_kept q by blast
  from b nm have nm': "name q \<notin> (if is_dir fs q = Inr True
                                     then excluded_directories else excluded_files)"
    by (cases b) auto
  have anc: "\<forall>a \<in> set (ancestors root ns). name a \<notin> excluded_directories"
  proof
    fix a assume "a \<in> set (ancestors root ns)"
    then obtain ds rest where s: "ns = ds @ rest" "ds \<noteq> []" "rest \<noteq> []" "a = root @ ds"
      unfolding ancestors_member by blast
    from v s have "?t a = Inr False" "is_dir fs a = Inr True"
      using visited_prefix_kept[of fs ?t root ds rest] visited_ancestor_dir[of fs ?t root ds rest]
      by auto
    then show "name a \<notin> excluded_directories" by (auto simp: asset_kept)
  qed
  from ne q visited_exists[OF v] nm' sf anc
  show "\<exists>ns. ns \<noteq> [] \<and> q = root @ ns \<and> lookup fs q \<noteq> None \<and>
            name q \<notin> (if is_dir fs q = Inr True then excluded_directories else excluded_files) \<and>
            suffix q \<noteq> ''.meta'' \<and>
            (\<forall>a \<in> set (ancestors root ns). name a \<notin> excluded_directories)"
    by blast
next
  let ?t = "asset_is_excluded fs excluded_files excluded_directories"
  fix ns
  assume ne: "ns \<noteq> []" and ex: "lookup fs (root @ ns) \<noteq> None"
    and nm: "name (root @ ns) \<notin> (if is_dir fs (root @ ns) = Inr True
                                   then excluded_directories else excluded_files)"
    and sf: "suffix (root @ ns) \<noteq> ''.meta''"
    and anc: "\<forall>a \<in> set (ancestors root ns).
                name a \<notin> excluded_directories \<and> suffix a \<noteq> ''.meta''"
  from assms have "find_elems_rec fs ?t (\<lambda>_. Inr False) root {} = Inr A"
    by (simp add: gather_asset_paths_def find_elems_def)
  with traversal_returns_only_if(1)[of fs ?t "\<lambda>_. Inr False" root "{}"]
  have ok: "\<forall>d. reaches fs ?t root d \<longrightarrow> listing_ok fs ?t (\<lambda>_. Inr False) d" by blast
  have keep: "\<forall>ds rest. ns = ds @ rest \<and> ds \<noteq> [] \<longrightarrow> ?t (root @ ds) \<noteq> Inr True"
  proof (intro allI impI notI)
    fix ds rest assume s: "ns = ds @ rest \<and> ds \<noteq> []" and cut: "?t (root @ ds) = Inr True"
    from cut obtain b where b: "is_dir fs (root @ ds) = Inr b"
      and c: "name (root @ ds) \<in> (if b then excluded_directories else excluded_files)
              \<or> suffix (root @ ds) = ''.meta''"
      unfolding asset_cut by blast
    show False
    proof (cases "rest = []")
      case True
      with s have "root @ ds = root @ ns" by simp
      with b c nm sf show False by (cases b) auto
    next
      case False
      with s have a: "root @ ds \<in> set (ancestors root ns)" unfolding ancestors_member by blast
      from ex s False obtain n where "lookup fs (root @ ds) = Some n" "is_directory n"
        using lookup_prefix_directory[of fs "root @ ds" rest] by auto
      with is_dir_kind[OF b] have "b" by simp
      with c anc a show False by auto
    qed
  qed
  from visited_intro[OF ok ne ex keep] have "visited fs ?t root ns" .
  then show "root @ ns \<in> A"
    unfolding gather_asset_paths_below[OF assms] below_member by blast
qed

text \<open>The theorem on a tree with an asset and its metafile, an excluded file name at two
  depths, an excluded directory and a directory holding a texture, asked about the
  texture.\<close>

theorem asset_set_exact_witness:
  "gather_asset_paths
     (Dir True [(''README.md'', File), (''a.txt'', File), (''a.txt.meta'', File),
                (''Textures'', Dir True [(''t.png'', File), (''README.md'', File)]),
                (''build'', Dir True [(''d.txt'', File)])])
     [] {''README.md''} {''build''}
     = Inr {[''a.txt''], [''Textures''], [''Textures'', ''t.png'']} \<and>
   [''Textures'', ''t.png''] \<noteq> [] \<and>
   lookup (Dir True [(''README.md'', File), (''a.txt'', File), (''a.txt.meta'', File),
                (''Textures'', Dir True [(''t.png'', File), (''README.md'', File)]),
                (''build'', Dir True [(''d.txt'', File)])])
     ([] @ [''Textures'', ''t.png'']) \<noteq> None \<and>
   name ([] @ [''Textures'', ''t.png''])
     \<notin> (if is_dir (Dir True [(''README.md'', File), (''a.txt'', File), (''a.txt.meta'', File),
                (''Textures'', Dir True [(''t.png'', File), (''README.md'', File)]),
                (''build'', Dir True [(''d.txt'', File)])])
              ([] @ [''Textures'', ''t.png'']) = Inr True
         then {''build''} else {''README.md''}) \<and>
   suffix ([] @ [''Textures'', ''t.png'']) \<noteq> ''.meta'' \<and>
   ancestors [] [''Textures'', ''t.png''] = [[''Textures'']] \<and>
   name [''Textures''] \<notin> {''build''} \<and> suffix [''Textures''] \<noteq> ''.meta'' \<and>
   [] @ [''Textures'', ''t.png''] \<in> {[''a.txt''], [''Textures''], [''Textures'', ''t.png'']} \<and>
   [''a.txt''] \<in> {[''a.txt''], [''Textures''], [''Textures'', ''t.png'']} \<and>
   name [''a.txt'']
     \<notin> (if is_dir (Dir True [(''README.md'', File), (''a.txt'', File), (''a.txt.meta'', File),
                (''Textures'', Dir True [(''t.png'', File), (''README.md'', File)]),
                (''build'', Dir True [(''d.txt'', File)])]) [''a.txt''] = Inr True
         then {''build''} else {''README.md''}) \<and>
   suffix [''a.txt''] \<noteq> ''.meta''"
proof -
  let ?fs = "Dir True [(''README.md'', File), (''a.txt'', File), (''a.txt.meta'', File),
                (''Textures'', Dir True [(''t.png'', File), (''README.md'', File)]),
                (''build'', Dir True [(''d.txt'', File)])]"
  let ?A = "{[''a.txt''], [''Textures''], [''Textures'', ''t.png'']}"
  have g: "gather_asset_paths ?fs [] {''README.md''} {''build''} = Inr ?A" by code_simp
  have h1: "[''Textures'', ''t.png''] \<noteq> []" by simp
  have h2: "lookup ?fs ([] @ [''Textures'', ''t.png'']) \<noteq> None" by code_simp
  have h3: "name ([] @ [''Textures'', ''t.png''])
              \<notin> (if is_dir ?fs ([] @ [''Textures'', ''t.png'']) = Inr True
                  then {''build''} else {''README.md''})" by code_simp
  have h4: "suffix ([] @ [''Textures'', ''t.png'']) \<noteq> ''.meta''" by code_simp
  have an: "ancestors [] [''Textures'', ''t.png''] = [[''Textures'']]" by code_simp
  have n1: "name [''Textures''] \<notin> {''build''}" by code_simp
  have s1: "suffix [''Textures''] \<noteq> ''.meta''" by code_simp
  have h5: "\<forall>a \<in> set (ancestors [] [''Textures'', ''t.png'']).
              name a \<notin> {''build''} \<and> suffix a \<noteq> ''.meta''"
    unfolding an using n1 s1 by simp
  note t = asset_set_exact[OF g]
  from t[THEN conjunct2, rule_format, OF h1 h2 h3 h4 h5[rule_format]]
  have c1: "[] @ [''Textures'', ''t.png''] \<in> ?A" .
  have m: "[''a.txt''] \<in> ?A" by simp
  from t[THEN conjunct1, rule_format, OF m]
  have c2: "name [''a.txt'']
              \<notin> (if is_dir ?fs [''a.txt''] = Inr True then {''build''} else {''README.md''})"
    and c3: "suffix [''a.txt''] \<noteq> ''.meta''" by blast+
  show ?thesis
    by (intro conjI) (fact g h1 h2 h3 h4 an n1 s1 c1 m c2 c3)+
qed

text \<open>Claim C5 as stated fails on a tree with a subdirectory: no result predicate is
  passed to \<^verbatim>\<open>_find_elems\<close>, so the directory itself is an element of the asset set.\<close>

theorem directory_is_asset:
  "gather_asset_paths (Dir True [(''Textures'', Dir True [])]) [] {} {} = Inr {[''Textures'']} \<and>
   is_dir (Dir True [(''Textures'', Dir True [])]) [''Textures''] = Inr True \<and>
   is_file (Dir True [(''Textures'', Dir True [])]) [''Textures''] = Inr False"
  by code_simp

text \<open>
  Claim C8 says that the asset set and the metafile set are disjoint. The code does not
  keep that on a tree with an entry that is neither a regular file nor a directory, such as
  a broken symbolic link: \<^verbatim>\<open>_is_excluded\<close> of \<^verbatim>\<open>gather_metafile_paths\<close> tests its suffix
  only when \<^verbatim>\<open>is_file()\<close> holds and \<^verbatim>\<open>_is_not_metafile\<close> drops directories only, so
  the entry is collected as a metafile, and it is collected as an asset as well.
\<close>

theorem special_entry_in_both_sets:
  "gather_asset_paths (Dir True [(''link'', Special)]) [] {} {} = Inr {[''link'']} \<and>
   gather_metafile_paths (Dir True [(''link'', Special)]) [] {} = Inr {[''link'']}"
  by code_simp

text \<open>
  Claim C10 says that a regular file named \<open>.meta\<close> whose name is not in
  \<open>excluded_files\<close> and which is not under an excluded directory is an element of the
  asset set. The code does not keep that under a directory whose own suffix is \<open>.meta\<close>:
  \<^verbatim>\<open>_is_excluded\<close> of \<^verbatim>\<open>gather_asset_paths\<close> tests the suffix of directories too, so the
  asset traversal never enters \<^verbatim>\<open>foo.meta\<close> and collects nothing in it, neither
  \<^verbatim>\<open>foo.meta/.meta\<close> nor \<^verbatim>\<open>foo.meta/x.txt\<close>, while \<^verbatim>\<open>gather_metafile_paths\<close> does
  enter it and collects \<^verbatim>\<open>foo.meta/x.txt.meta\<close>.
\<close>

theorem dot_meta_file_under_meta_directory_is_lost:
  "is_file (Dir True [(''foo.meta'', Dir True [(''.meta'', File), (''x.txt'', File),
                                              (''x.txt.meta'', File)])])
     [''foo.meta'', ''.meta''] = Inr True \<and>
   name [''foo.meta'', ''.meta''] = ''.meta'' \<and>
   ''.meta'' \<notin> ({} :: string set) \<and>
   name [''foo.meta''] \<notin> ({} :: string set) \<and>
   gather_asset_paths
     (Dir True [(''foo.meta'', Dir True [(''.meta'', File), (''x.txt'', File),
                                        (''x.txt.meta'', File)])]) [] {} {} = Inr {} \<and>
   gather_metafile_paths
     (Dir True [(''foo.meta'', Dir True [(''.meta'', File), (''x.txt'', File),
                                        (''x.txt.meta'', File)])]) [] {}
     = Inr {[''foo.meta'', ''x.txt.meta'']}"
  by code_simp

section \<open>Claims about reporting\<close>

text \<open>
  Claim C6 says that the duration reported at the exit of a \<^verbatim>\<open>Test\<close> scope is the time
  elapsed since that scope was entered. In the code \<^verbatim>\<open>__enter__\<close> records nothing and
  returns the instance as it is, and \<^verbatim>\<open>_start_time\<close> keeps the default computed once,
  when the class statement ran. With the class defined at instant 0, a scope entered at
  5 s and left one millisecond later measures 5001 ms, and a second instance entered at
  7 s has the same start time.
\<close>

theorem test_duration_counts_from_class_definition:
  "Test_enter (\<lambda>_. True) (Test_init 0 ''a.txt'') 5000000 []
     = Inr (Test_init 0 ''a.txt'',
            [''##teamcity[testStarted name='a.txt' captureStandardOutput='false']'']) \<and>
   Test_elapsed (fst (projr (Test_enter (\<lambda>_. True) (Test_init 0 ''a.txt'') 5000000 []))) 5001000
     = 5001000 \<and>
   Test_elapsed (fst (projr (Test_enter (\<lambda>_. True) (Test_init 0 ''a.txt'') 5000000 []))) 5001000
     \<noteq> 5001000 - 5000000 \<and>
   start_time (fst (projr (Test_enter (\<lambda>_. True) (Test_init 0 ''a.txt'') 5000000 [])))
     = start_time (fst (projr (Test_enter (\<lambda>_. True) (Test_init 0 ''b.txt'') 7000000 [])))"
  by (simp add: Test_elapsed_def Test_enter_def Test_init_def publish_def msg_def)

text \<open>
  Claim C7, as amended. Property values are written verbatim between single quotes, with
  no escaping. The line determines the event, so that it can be parsed back, for events
  whose name contains no space, whose keys contain no \<open>=\<close> and whose values contain no
  single quote: two such events with the same line are the same event.
\<close>

theorem plain_events_have_distinct_lines:
  assumes "plain_event m" and "plain_event m'" and "msg m = msg m'"
  shows "m = m'"
proof -
  from assms(3) have "text' m @ render (properties m) = text' m' @ render (properties m')"
    by (simp add: msg_render)
  with assms(1,2) have t: "text' m = text' m'"
    and r: "render (properties m) = render (properties m')"
    using text_render_inj by (auto simp: plain_event_def)
  from render_inj[OF _ _ r] assms(1,2) have "properties m = properties m'"
    by (simp add: plain_event_def)
  with t show ?thesis by simp
qed

text \<open>The theorem at the event of a missing metafile, with the line it prints.\<close>

theorem plain_events_have_distinct_lines_witness:
  "plain_event \<lparr>text' = ''testFailed'',
                properties = [(''name'', ''Assets/b.txt''), (''message'', ''No .metafile''),
                              (''details'', ''Metafile Assets/b.txt.meta not found.'')]\<rparr> \<and>
   msg \<lparr>text' = ''testFailed'',
        properties = [(''name'', ''Assets/b.txt''), (''message'', ''No .metafile''),
                      (''details'', ''Metafile Assets/b.txt.meta not found.'')]\<rparr>
     = ''##teamcity[testFailed name='Assets/b.txt' message='No .metafile' details='Metafile Assets/b.txt.meta not found.']'' \<and>
   \<lparr>text' = ''testFailed'',
    properties = [(''name'', ''Assets/b.txt''), (''message'', ''No .metafile''),
                  (''details'', ''Metafile Assets/b.txt.meta not found.'')]\<rparr>
     = \<lparr>text' = ''testFailed'',
        properties = [(''name'', ''Assets/b.txt''), (''message'', ''No .metafile''),
                      (''details'', ''Metafile Assets/b.txt.meta not found.'')]\<rparr>"
proof -
  let ?m = "\<lparr>text' = ''testFailed'',
             properties = [(''name'', ''Assets/b.txt''), (''message'', ''No .metafile''),
                           (''details'', ''Metafile Assets/b.txt.meta not found.'')]\<rparr>"
  have p: "plain_event ?m" by (simp add: plain_event_def)
  have e: "msg ?m = msg ?m" by simp
  have l: "msg ?m = ''##teamcity[testFailed name='Assets/b.txt' message='No .metafile' details='Metafile Assets/b.txt.meta not found.']''"
    by (simp add: msg_def)
  from p l plain_events_have_distinct_lines[OF p p e] show ?thesis by blast
qed

text \<open>Claim C7 as stated fails for a value with a single quote in it: the quote is
  printed as it is, and the line is also the line of another event, with two
  properties.\<close>

theorem quote_in_value_is_not_escaped:
  "msg \<lparr>text' = ''testStarted'', properties = [(''name'', ''x' flowId='y'')]\<rparr>
     = ''##teamcity[testStarted name='x' flowId='y']'' \<and>
   msg \<lparr>text' = ''testStarted'', properties = [(''name'', ''x''), (''flowId'', ''y'')]\<rparr>
     = ''##teamcity[testStarted name='x' flowId='y']'' \<and>
   [(''name'', ''x' flowId='y'')] \<noteq> [(''name'', ''x''), (''flowId'', ''y'')]"
  by (simp add: msg_def)




end
